theory Spec2Isabelle
  imports Complex_Main
begin

text \<open>
  A model of the search aggregation service: its in-memory cache (\<^verbatim>\<open>cacheGet\<close>,
  \<^verbatim>\<open>cacheSet\<close>, \<^verbatim>\<open>cacheClear\<close>), its retrying fetch (\<^verbatim>\<open>fetchWithRetry\<close>) and the four
  category searches (\<^verbatim>\<open>webSearch\<close>, \<^verbatim>\<open>imageSearch\<close>, \<^verbatim>\<open>videoSearch\<close>, \<^verbatim>\<open>newsSearch\<close>), each
  function translated from its JavaScript source.  What the outside world does is an input
  of the functions: the clock, what each call of \<^verbatim>\<open>fetch\<close> and of a provider settles with,
  and the values of \<^verbatim>\<open>Math.random()\<close>.  The definitions come first, the properties after.
\<close>

section \<open>Configuration constants\<close>

text \<open>
  The constants of the service's configuration block.  Times are milliseconds, as
  returned by \<^verbatim>\<open>Date.now()\<close>.  JavaScript numbers are modelled by \<^typ>\<open>int\<close> where the
  code only counts or measures milliseconds, by \<^typ>\<open>nat\<close> for sizes and counters, and by
  \<^typ>\<open>real\<close> for scores; rounding, \<^verbatim>\<open>NaN\<close> and the infinities of IEEE doubles are not
  modelled.
\<close>

definition RESULTS_PER_PAGE :: nat where
  "RESULTS_PER_PAGE = 100"

definition TTL_short :: int where
  "TTL_short = 2 * 60 * 1000"

definition TTL_medium :: int where
  "TTL_medium = 10 * 60 * 1000"

definition TTL_long :: int where
  "TTL_long = 60 * 60 * 1000"

definition MAX_RETRIES :: nat where
  "MAX_RETRIES = 5"

definition MAX_CACHE_SIZE :: nat where
  "MAX_CACHE_SIZE = 10000"

section \<open>The JavaScript \<^verbatim>\<open>Map\<close>\<close>

text \<open>
  A \<^verbatim>\<open>Map\<close> iterates in insertion order, and \<^verbatim>\<open>set\<close> on a key that is present replaces
  the value where the key stands.  Both matter below (eviction order of the cache, order
  of the deduplicated results), so a \<^verbatim>\<open>Map\<close> is an association list in insertion order.
  Its keys are distinct: \<^verbatim>\<open>set\<close> keeps them so, and \<^verbatim>\<open>delete\<close> removes the entry of a key.
\<close>

type_synonym ('k, 'v) js_map = "('k \<times> 'v) list"

fun Map_get :: "('k, 'v) js_map \<Rightarrow> 'k \<Rightarrow> 'v option" where
  "Map_get [] k = None"
| "Map_get ((k', v) # m) k = (if k' = k then Some v else Map_get m k)"

fun Map_set :: "'k \<Rightarrow> 'v \<Rightarrow> ('k, 'v) js_map \<Rightarrow> ('k, 'v) js_map" where
  "Map_set k v [] = [(k, v)]"
| "Map_set k v ((k', v') # m) = (if k' = k then (k, v) # m else (k', v') # Map_set k v m)"

definition Map_delete :: "'k \<Rightarrow> ('k, 'v) js_map \<Rightarrow> ('k, 'v) js_map" where
  "Map_delete k m = filter (\<lambda>p. fst p \<noteq> k) m"

definition Map_values :: "('k, 'v) js_map \<Rightarrow> 'v list" where
  "Map_values m = map snd m"

section \<open>Cache management\<close>

text \<open>
  A cache entry is the object \<^verbatim>\<open>{ d, t, ttl }\<close>; the global state is the \<^verbatim>\<open>CACHE\<close> map and
  the two counters.  Every function takes the state and returns the new one.  The reading of
  the clock is the parameter \<open>now\<close>: the two calls of \<^verbatim>\<open>Date.now()\<close> inside one synchronous
  call of \<^verbatim>\<open>cacheGet\<close> or \<^verbatim>\<open>cacheSet\<close> are taken to return the same instant.
\<close>

record 'd entry =
  entry_d :: 'd
  entry_t :: int
  entry_ttl :: int

record 'd cache_state =
  CACHE :: "(string, 'd entry) js_map"
  cacheHits :: nat
  cacheMisses :: nat

text \<open>\<^verbatim>\<open>entry.ttl || TTL.medium\<close>: a stored ttl of \<open>0\<close> is falsy and reads as \<^verbatim>\<open>TTL.medium\<close>.\<close>

definition ttl_or_medium :: "'d entry \<Rightarrow> int" where
  "ttl_or_medium e = (if entry_ttl e = 0 then TTL_medium else entry_ttl e)"

text \<open>
  \<^verbatim>\<open>cacheGet\<close> returns \<^verbatim>\<open>null\<close> (here \<open>None\<close>) on a miss and \<^verbatim>\<open>entry.d\<close> on a hit.  No
  statement of its \<^verbatim>\<open>try\<close> block can throw on a well-formed entry, so the \<^verbatim>\<open>catch\<close> branch has
  no counterpart.
\<close>

definition cacheGet :: "string \<Rightarrow> int \<Rightarrow> 'd cache_state \<Rightarrow> 'd option \<times> 'd cache_state" where
  "cacheGet key now s =
     (case Map_get (CACHE s) key of
        None \<Rightarrow> (None, s\<lparr>cacheMisses := cacheMisses s + 1\<rparr>)
      | Some e \<Rightarrow>
          (let age = now - entry_t e; ttl = ttl_or_medium e in
           if age > ttl
           then (None, s\<lparr>CACHE := Map_delete key (CACHE s), cacheMisses := cacheMisses s + 1\<rparr>)
           else (Some (entry_d e),
                 s\<lparr>CACHE := Map_set key (e\<lparr>entry_t := now\<rparr>) (CACHE s),
                   cacheHits := cacheHits s + 1\<rparr>)))"

text \<open>
  The clean-up of \<^verbatim>\<open>cacheSet\<close>, in its two loops.  \<^verbatim>\<open>entries.sort((a, b) => a[1].t - b[1].t)\<close>
  is a stable ascending sort; \<^verbatim>\<open>Math.floor(entries.length * 0.1)\<close> is \<open>length entries div 10\<close>
  for every length a \<^verbatim>\<open>Map\<close> can have.
\<close>

definition evict_oldest :: "(string, 'd entry) js_map \<Rightarrow> (string, 'd entry) js_map" where
  "evict_oldest c =
     (let entries = sort_key (\<lambda>p. entry_t (snd p)) c;
          toRemove = length entries div 10
      in fold (\<lambda>p m. Map_delete (fst p) m) (take toRemove entries) c)"

definition sweep_expired :: "int \<Rightarrow> (string, 'd entry) js_map \<Rightarrow> (string, 'd entry) js_map" where
  "sweep_expired now c = filter (\<lambda>p. \<not> (now - entry_t (snd p) > ttl_or_medium (snd p))) c"

text \<open>The third parameter is optional in the source: \<open>None\<close> takes the default \<^verbatim>\<open>TTL.medium\<close>.\<close>

definition cacheSet ::
  "string \<Rightarrow> 'd \<Rightarrow> int option \<Rightarrow> int \<Rightarrow> 'd cache_state \<Rightarrow> 'd cache_state" where
  "cacheSet key data ttl now s =
     (let c = (if length (CACHE s) \<ge> MAX_CACHE_SIZE
               then sweep_expired now (evict_oldest (CACHE s))
               else CACHE s)
      in s\<lparr>CACHE := Map_set key
                       \<lparr>entry_d = data, entry_t = now,
                        entry_ttl = (case ttl of None \<Rightarrow> TTL_medium | Some x \<Rightarrow> x)\<rparr> c\<rparr>)"

definition cacheClear :: "'d cache_state \<Rightarrow> 'd cache_state" where
  "cacheClear s = \<lparr>CACHE = [], cacheHits = 0, cacheMisses = 0\<rparr>"

text \<open>The state at process start, and the histories of cache calls that lead away from it.\<close>

definition empty_cache :: "'d cache_state" where
  "empty_cache = \<lparr>CACHE = [], cacheHits = 0, cacheMisses = 0\<rparr>"

datatype 'd cache_op = Get string int | Put string 'd "int option" int | Clear

fun cache_exec :: "'d cache_op \<Rightarrow> 'd cache_state \<Rightarrow> 'd cache_state" where
  "cache_exec (Get key now) s = snd (cacheGet key now s)"
| "cache_exec (Put key data ttl now) s = cacheSet key data ttl now s"
| "cache_exec Clear s = cacheClear s"

definition cache_after :: "'d cache_op list \<Rightarrow> 'd cache_state" where
  "cache_after ops = fold cache_exec ops empty_cache"

text \<open>A series of reads, each of a key at an instant, with the value each read returns.\<close>

fun cacheGets :: "(string \<times> int) list \<Rightarrow> 'd cache_state \<Rightarrow> 'd option list \<times> 'd cache_state" where
  "cacheGets [] s = ([], s)"
| "cacheGets ((key, now) # rs) s =
     (case cacheGet key now s of
        (r, s1) \<Rightarrow> (case cacheGets rs s1 of (out, s2) \<Rightarrow> (r # out, s2)))"

text \<open>
  \<open>read_within key ttl prev rs\<close>: in the series \<open>rs\<close>, every read of \<open>key\<close> comes at most
  \<open>ttl\<close> after the one before it, the first at most \<open>ttl\<close> after \<open>prev\<close>.
\<close>

fun read_within :: "string \<Rightarrow> int \<Rightarrow> int \<Rightarrow> (string \<times> int) list \<Rightarrow> bool" where
  "read_within key ttl prev [] = True"
| "read_within key ttl prev ((k, now) # rs) =
     (if k = key then now - prev \<le> ttl \<and> read_within key ttl now rs
      else read_within key ttl prev rs)"

fun last_read :: "string \<Rightarrow> int \<Rightarrow> (string \<times> int) list \<Rightarrow> int" where
  "last_read key prev [] = prev"
| "last_read key prev ((k, now) # rs) = last_read key (if k = key then now else prev) rs"

section \<open>Thrown values and number formatting\<close>

text \<open>
  What a \<^verbatim>\<open>throw\<close> or a rejected promise carries: an \<^verbatim>\<open>Error\<close> object with its message,
  or the value \<^verbatim>\<open>undefined\<close>.
\<close>

datatype thrown = Undefined | Error string

text \<open>Template literals print a number in decimal.\<close>

definition digit_char :: "nat \<Rightarrow> char" where
  "digit_char n = ''0123456789'' ! n"

function string_of_nat :: "nat \<Rightarrow> string" where
  "string_of_nat n =
     (if n < 10 then [digit_char n] else string_of_nat (n div 10) @ [digit_char (n mod 10)])"
  by pat_completeness auto
termination
  by (relation "measure (\<lambda>n. n)") auto

declare string_of_nat.simps [simp del]

definition string_of_int :: "int \<Rightarrow> string" where
  "string_of_int i = (if i < 0 then CHR ''-'' # string_of_nat (nat (- i)) else string_of_nat (nat i))"

text \<open>
  Reading \<^verbatim>\<open>x.message\<close> of a caught value: a \<^verbatim>\<open>TypeError\<close> is thrown when the value is
  \<^verbatim>\<open>undefined\<close>.
\<close>

definition TypeError_message :: string where
  "TypeError_message = ''Cannot read properties of undefined (reading 'message')''"

definition message_of :: "thrown \<Rightarrow> thrown + string" where
  "message_of x = (case x of Undefined \<Rightarrow> Inl (Error TypeError_message) | Error m \<Rightarrow> Inr m)"

section \<open>fetchWithRetry\<close>

text \<open>
  One call of \<^verbatim>\<open>fetch\<close> either rejects (transport error, abort) or resolves with a response.
  Of a response the function reads the status, the \<^verbatim>\<open>retry-after\<close> header and the body;
  \<^verbatim>\<open>response.json()\<close> and \<^verbatim>\<open>response.text()\<close> return the content or throw.  \<open>retry_after\<close>
  is \<^verbatim>\<open>parseInt\<close> of the header when the header is present and not empty (a header that
  does not parse to a number is not modelled).  The network is a function from the attempt
  index to what \<^verbatim>\<open>fetch\<close> does at that attempt.
\<close>

datatype 'a body = Body 'a | BodyFails string

record 'a response =
  status :: nat
  statusText :: string
  retry_after :: "int option"
  payload :: "'a body"

datatype 'a fetch_result = Rejects string | Responds "'a response"

definition response_ok :: "'a response \<Rightarrow> bool" where
  "response_ok r \<longleftrightarrow> 200 \<le> status r \<and> status r \<le> 299"

text \<open>
  How the \<^verbatim>\<open>try\<close> block of one iteration ends: with \<^verbatim>\<open>return\<close>, with the wait and
  \<^verbatim>\<open>continue\<close> of the 429/5xx branch, or with a \<^verbatim>\<open>throw\<close> that the \<^verbatim>\<open>catch\<close> of the same
  iteration receives.
\<close>

datatype 'a attempt_end = Returns 'a | Continues int | Throws string

definition try_attempt :: "nat \<Rightarrow> 'a fetch_result \<Rightarrow> 'a attempt_end" where
  "try_attempt attempt fr =
     (case fr of
        Rejects m \<Rightarrow> Throws m
      | Responds r \<Rightarrow>
          if response_ok r then
            (case payload r of Body v \<Rightarrow> Returns v | BodyFails m \<Rightarrow> Throws m)
          else if status r = 429 \<or> status r \<ge> 500 then
            Continues (case retry_after r of
                         Some n \<Rightarrow> n * 1000
                       | None \<Rightarrow> 1000 * (int attempt + 1))
          else Throws (''HTTP '' @ string_of_nat (status r) @ '': '' @ statusText r))"

definition failed_after :: "nat \<Rightarrow> string \<Rightarrow> string" where
  "failed_after maxRetries m =
     ''Failed after '' @ string_of_nat maxRetries @ '' attempts: '' @ m"

text \<open>
  A run of \<^verbatim>\<open>fetchWithRetry\<close>: what it returns or throws, how many times it called
  \<^verbatim>\<open>fetch\<close>, and the waits it made (\<^verbatim>\<open>delay(ms)\<close>), in order.
\<close>

record 'a retry_run =
  outcome :: "thrown + 'a"
  fetches :: nat
  delays :: "int list"

text \<open>
  The \<^verbatim>\<open>for\<close> loop, from the iteration \<open>attempt\<close> on, with the variable \<open>lastError\<close> and the
  waits made so far.  Below the loop stands \<^verbatim>\<open>throw lastError\<close>.
\<close>

function fetch_attempts ::
  "(nat \<Rightarrow> 'a fetch_result) \<Rightarrow> nat \<Rightarrow> nat \<Rightarrow> thrown \<Rightarrow> int list \<Rightarrow> 'a retry_run" where
  "fetch_attempts net maxRetries attempt lastError ds =
     (if attempt < maxRetries then
        (case try_attempt attempt (net attempt) of
           Returns v \<Rightarrow> \<lparr>outcome = Inr v, fetches = attempt + 1, delays = ds\<rparr>
         | Continues waitTime \<Rightarrow>
             fetch_attempts net maxRetries (attempt + 1) lastError (ds @ [waitTime])
         | Throws m \<Rightarrow>
             if attempt = maxRetries - 1
             then \<lparr>outcome = Inl (Error (failed_after maxRetries m)),
                   fetches = attempt + 1, delays = ds\<rparr>
             else fetch_attempts net maxRetries (attempt + 1) (Error m)
                    (ds @ [1000 * 2 ^ attempt]))
      else \<lparr>outcome = Inl lastError, fetches = attempt, delays = ds\<rparr>)"
  by pat_completeness auto
termination
  by (relation "measure (\<lambda>(net, maxRetries, attempt, lastError, ds). maxRetries - attempt)") auto

declare fetch_attempts.simps [simp del]

definition fetchWithRetry :: "(nat \<Rightarrow> 'a fetch_result) \<Rightarrow> nat \<Rightarrow> 'a retry_run" where
  "fetchWithRetry net maxRetries = fetch_attempts net maxRetries 0 Undefined []"

text \<open>The conditions the specification calls non-retryable, and the 5xx responses.\<close>

definition non_retryable :: "'a fetch_result \<Rightarrow> bool" where
  "non_retryable fr =
     (case fr of
        Rejects m \<Rightarrow> False
      | Responds r \<Rightarrow>
          (400 \<le> status r \<and> status r \<le> 499 \<and> status r \<noteq> 429)
          \<or> (response_ok r \<and> (case payload r of Body v \<Rightarrow> False | BodyFails m \<Rightarrow> True)))"

definition server_error :: "'a fetch_result \<Rightarrow> bool" where
  "server_error fr = (case fr of Rejects m \<Rightarrow> False | Responds r \<Rightarrow> 500 \<le> status r)"

text \<open>The message of the error that a failed attempt throws inside the loop.\<close>

definition thrown_message :: "'a fetch_result \<Rightarrow> string" where
  "thrown_message fr =
     (case fr of
        Rejects m \<Rightarrow> m
      | Responds r \<Rightarrow>
          if response_ok r then (case payload r of Body v \<Rightarrow> [] | BodyFails m \<Rightarrow> m)
          else ''HTTP '' @ string_of_nat (status r) @ '': '' @ statusText r)"

text \<open>Two networks used as concrete inputs: a 404 followed by a 200, and a 500 each time.\<close>

definition not_found :: "string fetch_result" where
  "not_found = Responds \<lparr>status = 404, statusText = ''Not Found'', retry_after = None,
                         payload = Body ''''\<rparr>"

definition found :: "string fetch_result" where
  "found = Responds \<lparr>status = 200, statusText = ''OK'', retry_after = None,
                     payload = Body ''<html>''\<rparr>"

definition unavailable :: "string fetch_result" where
  "unavailable = Responds \<lparr>status = 500, statusText = ''Internal Server Error'',
                           retry_after = None, payload = Body ''''\<rparr>"

definition net_404_then_200 :: "nat \<Rightarrow> string fetch_result" where
  "net_404_then_200 i = (if i = 0 then not_found else found)"

section \<open>Result items and JavaScript truthiness\<close>

text \<open>
  A result item is a JavaScript object; the engine reads and writes the properties below
  and passes every other one through (they live in the extension part of the record).  A
  property that is absent is \<open>None\<close>.  The property \<^verbatim>\<open>image\<close> is named \<open>image_src\<close> here.
\<close>

record item =
  title :: string
  url :: "string option"
  image_src :: "string option"
  videoId :: "string option"
  score :: "real option"
  weight :: "real option"
  weightScore :: "real option"
  source :: "string option"
  provider :: "string option"
  safeSearch :: "string option"

text \<open>
  Truthiness of a string property (\<^verbatim>\<open>undefined\<close> and the empty string are falsy), and
  \<^verbatim>\<open>x || d\<close> on a number property (\<^verbatim>\<open>undefined\<close> and \<open>0\<close> are falsy).
\<close>

definition truthy :: "string option \<Rightarrow> bool" where
  "truthy s = (case s of None \<Rightarrow> False | Some x \<Rightarrow> x \<noteq> [])"

definition num_or :: "real option \<Rightarrow> real \<Rightarrow> real" where
  "num_or x d = (case x of None \<Rightarrow> d | Some v \<Rightarrow> if v = 0 then d else v)"

text \<open>
  \<^verbatim>\<open>Array.prototype.slice(start, end)\<close> on integer arguments: a negative index counts from
  the end, and both are clamped to the array.
\<close>

definition js_slice :: "'a list \<Rightarrow> int \<Rightarrow> int \<Rightarrow> 'a list" where
  "js_slice xs start stop =
     (let n = int (length xs);
          k = (if start < 0 then max (n + start) 0 else min start n);
          f = (if stop < 0 then max (n + stop) 0 else min stop n)
      in take (nat (f - k)) (drop (nat k) xs))"

text \<open>\<^verbatim>\<open>String.prototype.includes\<close> and \<^verbatim>\<open>toLowerCase\<close> (on the ASCII letters).\<close>

fun starts_with :: "string \<Rightarrow> string \<Rightarrow> bool" where
  "starts_with s [] = True"
| "starts_with [] (c # cs) = False"
| "starts_with (d # ds) (c # cs) = (d = c \<and> starts_with ds cs)"

fun str_includes :: "string \<Rightarrow> string \<Rightarrow> bool" where
  "str_includes [] sub = (sub = [])"
| "str_includes (c # cs) sub = (starts_with (c # cs) sub \<or> str_includes cs sub)"

definition toLowerCase_char :: "char \<Rightarrow> char" where
  "toLowerCase_char c =
     (case map_of (zip ''ABCDEFGHIJKLMNOPQRSTUVWXYZ'' ''abcdefghijklmnopqrstuvwxyz'') c of
        None \<Rightarrow> c
      | Some l \<Rightarrow> l)"

definition toLowerCase :: "string \<Rightarrow> string" where
  "toLowerCase s = map toLowerCase_char s"

definition getSafeSearchParam :: "string option \<Rightarrow> string" where
  "getSafeSearchParam safe =
     (case safe of
        None \<Rightarrow> ''moderate''
      | Some s \<Rightarrow>
          (let normalized = toLowerCase s in
           if normalized \<in> set [''off'', ''false'', ''0'', ''no'', ''disable'', ''disabled'']
           then ''off''
           else if normalized \<in> set [''strict'', ''high'', ''max'', ''2'', ''strong'']
           then ''strict''
           else ''moderate''))"

section \<open>Provider calls\<close>

text \<open>
  A settled promise.  A provider call resolves with an array of items (or with
  \<^verbatim>\<open>null\<close>/\<^verbatim>\<open>undefined\<close>, here \<open>None\<close>) or rejects with a thrown value.  What the providers
  return is the input of the aggregation: the network is not run.
\<close>

datatype 'a promise = Resolved 'a | Rejected thrown

type_synonym call_result = "item list option promise"

definition or_empty :: "item list option \<Rightarrow> item list" where
  "or_empty r = (case r of None \<Rightarrow> [] | Some xs \<Rightarrow> xs)"

text \<open>
  \<^verbatim>\<open>Promise.all\<close> resolves with all values when every promise resolves and rejects when
  one rejects (with the rejection that comes first in time; the model takes the first in
  the list).
\<close>

fun Promise_all :: "'a promise list \<Rightarrow> 'a list promise" where
  "Promise_all [] = Resolved []"
| "Promise_all (Rejected e # ps) = Rejected e"
| "Promise_all (Resolved x # ps) =
     (case Promise_all ps of Resolved xs \<Rightarrow> Resolved (x # xs) | Rejected e \<Rightarrow> Rejected e)"

text \<open>A registered provider, and the object that the \<^verbatim>\<open>then\<close>/\<^verbatim>\<open>catch\<close> handlers build.\<close>

record search_method =
  method_name :: string
  method_weight :: real

record provider_result =
  pr_name :: string
  pr_results :: "item list"
  pr_error :: "string option"
  pr_weight :: real

text \<open>
  \<^verbatim>\<open>method.func().then(results => ({..., results: results || []})).catch(error =>
  ({..., results: [], error: error.message}))\<close>.  Reading \<^verbatim>\<open>error.message\<close> throws when the
  provider rejected with \<^verbatim>\<open>undefined\<close>, and then the promise built here rejects.
\<close>

definition settle :: "search_method \<Rightarrow> call_result \<Rightarrow> provider_result promise" where
  "settle m r =
     (case r of
        Resolved res \<Rightarrow>
          Resolved \<lparr>pr_name = method_name m, pr_results = or_empty res, pr_error = None,
                    pr_weight = method_weight m\<rparr>
      | Rejected x \<Rightarrow>
          (case message_of x of
             Inl e \<Rightarrow> Rejected e
           | Inr msg \<Rightarrow>
               Resolved \<lparr>pr_name = method_name m, pr_results = [], pr_error = Some msg,
                         pr_weight = method_weight m\<rparr>))"

text \<open>
  The settled provider results of a category, as \<^verbatim>\<open>await Promise.all(providerPromises)\<close>
  gives them; \<open>primary\<close> tells what the call of each registered provider settles with.
\<close>

definition settle_all ::
  "search_method list \<Rightarrow> (string \<Rightarrow> call_result) \<Rightarrow> provider_result list promise" where
  "settle_all methods primary =
     Promise_all (map (\<lambda>m. settle m (primary (method_name m))) methods)"

section \<open>webSearch\<close>

definition searchMethods :: "search_method list" where
  "searchMethods =
     [\<lparr>method_name = ''DuckDuckGo'', method_weight = 3\<rparr>,
      \<lparr>method_name = ''Brave'', method_weight = 3\<rparr>,
      \<lparr>method_name = ''Startpage'', method_weight = 2\<rparr>,
      \<lparr>method_name = ''Qwant'', method_weight = 2\<rparr>,
      \<lparr>method_name = ''SearXNG'', method_weight = 2\<rparr>,
      \<lparr>method_name = ''Mojeek'', method_weight = 1\<rparr>,
      \<lparr>method_name = ''GoogleFallback'', method_weight = 3\<rparr>]"

text \<open>The items of a provider that succeeded, with \<open>source\<close>, \<open>safeSearch\<close> and \<open>weightScore\<close>.\<close>

definition enrich :: "string \<Rightarrow> provider_result \<Rightarrow> item \<Rightarrow> item" where
  "enrich safeSearchLevel p r =
     r\<lparr>source := Some (pr_name p),
       safeSearch := Some safeSearchLevel,
       weightScore := Some (num_or (Some (pr_weight p)) 1 * num_or (score r) 1)\<rparr>"

text \<open>
  The loop over \<open>providerResults\<close>, with the arrays \<open>allResults\<close> and \<open>errors\<close>.  An entry of
  \<open>errors\<close> is the object \<^verbatim>\<open>{ provider, error }\<close>.
\<close>

fun web_collect ::
  "string \<Rightarrow> provider_result list \<Rightarrow> item list \<times> (string \<times> string) list
     \<Rightarrow> item list \<times> (string \<times> string) list" where
  "web_collect level [] acc = acc"
| "web_collect level (p # ps) (allResults, errors) =
     (if truthy (pr_error p)
      then web_collect level ps (allResults, errors @ [(pr_name p, the (pr_error p))])
      else if length (pr_results p) > 0
      then web_collect level ps (allResults @ map (enrich level p) (pr_results p), errors)
      else web_collect level ps (allResults, errors))"

text \<open>
  The additional pages.  The calls are listed first (the \<^verbatim>\<open>break\<close> tests the length of
  \<open>allResults\<close>, which the listing does not change); each call resolves to its results, or
  to none when it rejects.
\<close>

definition bestProviders :: "string list" where
  "bestProviders = [''DuckDuckGo'', ''Brave'', ''GoogleFallback'']"

fun additional_calls :: "nat \<Rightarrow> string list \<Rightarrow> (string \<times> nat) list" where
  "additional_calls n [] = []"
| "additional_calls n (providerName # rest) =
     (if n \<ge> RESULTS_PER_PAGE * 2 then []
      else (case find (\<lambda>m. method_name m = providerName) searchMethods of
              None \<Rightarrow> []
            | Some m \<Rightarrow> map (\<lambda>additionalPage. (providerName, additionalPage)) [2, 3])
           @ additional_calls n rest)"

definition settle_additional :: "call_result \<Rightarrow> item list" where
  "settle_additional r = (case r of Resolved res \<Rightarrow> or_empty res | Rejected e \<Rightarrow> [])"

definition label_additional :: "string \<Rightarrow> string \<Rightarrow> nat \<Rightarrow> item \<Rightarrow> item" where
  "label_additional level name page r =
     r\<lparr>source := Some (name @ '' (page '' @ string_of_nat page @ '')''),
       safeSearch := Some level\<rparr>"

fun web_append_additional ::
  "string \<Rightarrow> ((string \<times> nat) \<times> item list) list \<Rightarrow> item list \<Rightarrow> item list" where
  "web_append_additional level [] allResults = allResults"
| "web_append_additional level (((name, page), results) # rest) allResults =
     (if length results > 0
      then web_append_additional level rest
             (allResults @ map (label_additional level name page) results)
      else web_append_additional level rest allResults)"

definition web_backfill ::
  "string \<Rightarrow> (string \<Rightarrow> nat \<Rightarrow> call_result) \<Rightarrow> item list \<Rightarrow> item list" where
  "web_backfill level additional allResults =
     (if length allResults < RESULTS_PER_PAGE
      then web_append_additional level
             (map (\<lambda>(name, page). ((name, page), settle_additional (additional name page)))
                (additional_calls (length allResults) bestProviders))
             allResults
      else allResults)"

text \<open>
  Deduplication: the loop over \<open>allResults\<close> with the map \<open>seenUrls\<close>, then the values of the
  map, sorted.  \<^verbatim>\<open>Array.prototype.sort\<close> is stable; the comparator orders by
  \<^verbatim>\<open>weightScore || 0\<close>, descending.
\<close>

definition ws0 :: "item \<Rightarrow> real" where
  "ws0 r = num_or (weightScore r) 0"

fun web_seen :: "item list \<Rightarrow> (string, item) js_map \<Rightarrow> (string, item) js_map" where
  "web_seen [] seenUrls = seenUrls"
| "web_seen (result # rest) seenUrls =
     (if \<not> truthy (url result) then web_seen rest seenUrls
      else (case Map_get seenUrls (the (url result)) of
              None \<Rightarrow> web_seen rest (Map_set (the (url result)) result seenUrls)
            | Some existing \<Rightarrow>
                if ws0 result > ws0 existing
                then web_seen rest (Map_set (the (url result)) result seenUrls)
                else web_seen rest seenUrls))"

definition web_unique :: "item list \<Rightarrow> item list" where
  "web_unique allResults =
     sort_key (\<lambda>r. - ws0 r) (Map_values (web_seen allResults []))"

definition web_page :: "int \<Rightarrow> item list \<Rightarrow> item list" where
  "web_page page uniqueResults =
     (let start = (page - 1) * int RESULTS_PER_PAGE;
          stop = start + int RESULTS_PER_PAGE
      in js_slice uniqueResults start stop)"

text \<open>
  The aggregation between the cache read and the cache write.  \<open>additional\<close> tells what
  each additional call settles with.  The result is what the \<^verbatim>\<open>await\<close> of \<^verbatim>\<open>Promise.all\<close>
  throws, or the page of results together with the local array \<open>errors\<close>, which the function
  writes to the console and does not return.
\<close>

record aggregate =
  pagedResults :: "item list"
  errors_logged :: "(string \<times> string) list"

definition web_allResults ::
  "string \<Rightarrow> (string \<Rightarrow> nat \<Rightarrow> call_result) \<Rightarrow> provider_result list \<Rightarrow> item list" where
  "web_allResults level additional providerResults =
     web_backfill level additional (fst (web_collect level providerResults ([], [])))"

definition web_merge ::
  "string \<Rightarrow> int \<Rightarrow> (string \<Rightarrow> nat \<Rightarrow> call_result) \<Rightarrow> provider_result list \<Rightarrow> aggregate" where
  "web_merge level page additional providerResults =
     \<lparr>pagedResults =
        web_page page (web_unique (web_allResults level additional providerResults)),
      errors_logged = snd (web_collect level providerResults ([], []))\<rparr>"

definition web_aggregate ::
  "string \<Rightarrow> int \<Rightarrow> (string \<Rightarrow> call_result) \<Rightarrow> (string \<Rightarrow> nat \<Rightarrow> call_result)
     \<Rightarrow> thrown + aggregate" where
  "web_aggregate level page primary additional =
     (case settle_all searchMethods primary of
        Rejected e \<Rightarrow> Inl e
      | Resolved providerResults \<Rightarrow> Inr (web_merge level page additional providerResults))"

definition web_key :: "string \<Rightarrow> int \<Rightarrow> string \<Rightarrow> string" where
  "web_key query page level = ''web:'' @ query @ '':'' @ string_of_int page @ '':'' @ level"

text \<open>
  The formula of the specification for the score, to compare with \<open>enrich\<close>:
  \<open>providerWeight * max(rawScore, 1)\<close>, an absent \<open>rawScore\<close> counting as 1.
\<close>

definition weightScore_spec :: "real \<Rightarrow> real option \<Rightarrow> real" where
  "weightScore_spec providerWeight rawScore =
     providerWeight * max (case rawScore of None \<Rightarrow> 1 | Some x \<Rightarrow> x) 1"

section \<open>imageSearch, videoSearch and newsSearch\<close>

text \<open>
  The three functions weight the items of the providers that succeeded in the same way,
  each with a fresh call of \<^verbatim>\<open>Math.random()\<close> per item.  \<open>rnd i\<close> is the value of the call
  number \<open>i\<close> that the weighting makes, counted from 0 (the loops are synchronous, so these
  calls follow one another); the loop carries the number of calls made so far.
\<close>

fun jitter :: "(nat \<Rightarrow> real) \<Rightarrow> nat \<Rightarrow> provider_result \<Rightarrow> item list \<Rightarrow> item list" where
  "jitter rnd i p [] = []"
| "jitter rnd i p (x # xs) =
     x\<lparr>provider := Some (pr_name p),
       weight := Some (pr_weight p),
       score := Some (pr_weight p * (rnd i * 0.5 + 0.5))\<rparr> # jitter rnd (Suc i) p xs"

fun collect_weighted ::
  "(nat \<Rightarrow> real) \<Rightarrow> provider_result list \<Rightarrow> item list \<times> nat \<Rightarrow> item list \<times> nat" where
  "collect_weighted rnd [] acc = acc"
| "collect_weighted rnd (p # ps) (allItems, i) =
     (if truthy (pr_error p) then collect_weighted rnd ps (allItems, i)
      else if length (pr_results p) > 0
      then collect_weighted rnd ps
             (allItems @ jitter rnd i p (pr_results p), i + length (pr_results p))
      else collect_weighted rnd ps (allItems, i))"

text \<open>
  The additional searches of \<^verbatim>\<open>imageSearch\<close> and \<^verbatim>\<open>videoSearch\<close>, awaited one after the
  other inside \<^verbatim>\<open>try\<close>/\<^verbatim>\<open>catch\<close>; the \<^verbatim>\<open>catch\<close> reads \<^verbatim>\<open>error.message\<close>.  \<open>label\<close> makes the
  \<open>provider\<close> property from the name of the search.
\<close>

fun more_loop ::
  "(string \<Rightarrow> string) \<Rightarrow> (string \<times> call_result) list \<Rightarrow> item list \<Rightarrow> thrown + item list" where
  "more_loop label [] allItems = Inr allItems"
| "more_loop label ((name, r) # rest) allItems =
     (if length allItems \<ge> 150 then Inr allItems
      else (case r of
              Resolved res \<Rightarrow>
                more_loop label rest
                  (if length (or_empty res) > 0
                   then allItems @ map (\<lambda>x. x\<lparr>provider := Some (label name)\<rparr>) (or_empty res)
                   else allItems)
            | Rejected x \<Rightarrow>
                (case message_of x of
                   Inl e \<Rightarrow> Inl e
                 | Inr msg \<Rightarrow> more_loop label rest allItems)))"

definition more_items ::
  "(string \<Rightarrow> string) \<Rightarrow> string list \<Rightarrow> (string \<Rightarrow> call_result) \<Rightarrow> item list
     \<Rightarrow> thrown + item list" where
  "more_items label names additional allItems =
     (if length allItems < 100
      then more_loop label (map (\<lambda>name. (name, additional name)) names) allItems
      else Inr allItems)"

text \<open>The comparator of the three sorts: \<^verbatim>\<open>(weight || 1) * (score || 1)\<close>, descending.\<close>

definition rank_score :: "item \<Rightarrow> real" where
  "rank_score a = num_or (weight a) 1 * num_or (score a) 1"

definition rank :: "item list \<Rightarrow> item list" where
  "rank xs = sort_key (\<lambda>a. - rank_score a) xs"

text \<open>The three deduplication loops; each keeps the first item it meets.\<close>

fun image_dedup :: "item list \<Rightarrow> string list \<Rightarrow> item list" where
  "image_dedup [] seenUrls = []"
| "image_dedup (img # rest) seenUrls =
     (if \<not> truthy (image_src img) \<or> the (image_src img) \<in> set seenUrls
      then image_dedup rest seenUrls
      else img # image_dedup rest (the (image_src img) # seenUrls))"

definition video_id :: "item \<Rightarrow> string option" where
  "video_id video = (if truthy (videoId video) then videoId video else url video)"

fun video_dedup :: "item list \<Rightarrow> string list \<Rightarrow> string option list \<Rightarrow> item list" where
  "video_dedup [] seenIds seenUrls = []"
| "video_dedup (video # rest) seenIds seenUrls =
     (if \<not> truthy (video_id video) then video_dedup rest seenIds seenUrls
      else if the (video_id video) \<in> set seenIds \<or> url video \<in> set seenUrls
      then video_dedup rest seenIds seenUrls
      else video # video_dedup rest (the (video_id video) # seenIds) (url video # seenUrls))"

fun news_dedup :: "item list \<Rightarrow> string list \<Rightarrow> item list" where
  "news_dedup [] seenUrls = []"
| "news_dedup (article # rest) seenUrls =
     (if \<not> truthy (url article) \<or> the (url article) \<in> set seenUrls
      then news_dedup rest seenUrls
      else article # news_dedup rest (the (url article) # seenUrls))"

definition imageProviders :: "search_method list" where
  "imageProviders =
     [\<lparr>method_name = ''Unsplash'', method_weight = 3\<rparr>,
      \<lparr>method_name = ''Pexels'', method_weight = 3\<rparr>,
      \<lparr>method_name = ''Pixabay'', method_weight = 2\<rparr>,
      \<lparr>method_name = ''Wikimedia'', method_weight = 2\<rparr>,
      \<lparr>method_name = ''Flickr'', method_weight = 2\<rparr>,
      \<lparr>method_name = ''Openverse'', method_weight = 1\<rparr>,
      \<lparr>method_name = ''Bing'', method_weight = 3\<rparr>,
      \<lparr>method_name = ''GoogleImages'', method_weight = 3\<rparr>]"

definition videoProviders :: "search_method list" where
  "videoProviders =
     [\<lparr>method_name = ''YouTube'', method_weight = 3\<rparr>,
      \<lparr>method_name = ''YouTubeMusic'', method_weight = 2\<rparr>,
      \<lparr>method_name = ''Vimeo'', method_weight = 2\<rparr>,
      \<lparr>method_name = ''PeerTube'', method_weight = 1\<rparr>,
      \<lparr>method_name = ''Dailymotion'', method_weight = 2\<rparr>,
      \<lparr>method_name = ''Bilibili'', method_weight = 1\<rparr>,
      \<lparr>method_name = ''Internet Archive'', method_weight = 1\<rparr>]"

definition newsProviders :: "search_method list" where
  "newsProviders =
     [\<lparr>method_name = ''NewsAPI'', method_weight = 3\<rparr>,
      \<lparr>method_name = ''Bing News'', method_weight = 2\<rparr>,
      \<lparr>method_name = ''Google News RSS'', method_weight = 2\<rparr>,
      \<lparr>method_name = ''Reddit News'', method_weight = 1\<rparr>]"

text \<open>
  The merge of each function, from the settled provider results on.  The additional
  searches of \<^verbatim>\<open>imageSearch\<close> are those of Unsplash, Pexels, Bing and GoogleImages, the ones
  of \<^verbatim>\<open>videoSearch\<close> YouTubeRelated, YouTubeTrending and VimeoStaffPicks.
\<close>

definition image_merge ::
  "(nat \<Rightarrow> real) \<Rightarrow> (string \<Rightarrow> call_result) \<Rightarrow> provider_result list \<Rightarrow> thrown + item list" where
  "image_merge rnd additional providerResults =
     (case more_items (\<lambda>name. name @ '' (additional)'')
             [''Unsplash'', ''Pexels'', ''Bing'', ''GoogleImages''] additional
             (fst (collect_weighted rnd providerResults ([], 0))) of
        Inl e \<Rightarrow> Inl e
      | Inr allImages \<Rightarrow> Inr (js_slice (rank (image_dedup allImages [])) 0 150))"

definition video_merge ::
  "(nat \<Rightarrow> real) \<Rightarrow> (string \<Rightarrow> call_result) \<Rightarrow> provider_result list \<Rightarrow> thrown + item list" where
  "video_merge rnd additional providerResults =
     (case more_items (\<lambda>name. name)
             [''YouTubeRelated'', ''YouTubeTrending'', ''VimeoStaffPicks''] additional
             (fst (collect_weighted rnd providerResults ([], 0))) of
        Inl e \<Rightarrow> Inl e
      | Inr allVideos \<Rightarrow> Inr (js_slice (rank (video_dedup allVideos [] [])) 0 150))"

text \<open>
  Under strict safe search \<^verbatim>\<open>newsSearch\<close> drops the articles of the blocked domains.
  \<^verbatim>\<open>extractDomain\<close> parses with the platform's \<^verbatim>\<open>URL\<close> class and is a parameter here; on an
  article without \<open>url\<close> it returns \<^verbatim>\<open>undefined\<close>, and \<^verbatim>\<open>domain.includes\<close> throws.
\<close>

definition blockedDomains :: "string list" where
  "blockedDomains =
     [''4chan.org'', ''8kun.top'', ''bitchute.com'', ''gab.com'', ''parler.com'',
      ''truthsocial.com'', ''rumble.com'', ''breitbart.com'', ''infowars.com'']"

definition TypeError_includes :: string where
  "TypeError_includes = ''Cannot read properties of undefined (reading 'includes')''"

fun news_strict :: "(string \<Rightarrow> string) \<Rightarrow> item list \<Rightarrow> thrown + item list" where
  "news_strict extractDomain [] = Inr []"
| "news_strict extractDomain (article # rest) =
     (case url article of
        None \<Rightarrow> Inl (Error TypeError_includes)
      | Some u \<Rightarrow>
          (case news_strict extractDomain rest of
             Inl e \<Rightarrow> Inl e
           | Inr kept \<Rightarrow>
               Inr (if list_ex (\<lambda>blocked. str_includes (extractDomain u) blocked) blockedDomains
                    then kept else article # kept)))"

definition news_merge ::
  "string \<Rightarrow> (string \<Rightarrow> string) \<Rightarrow> (nat \<Rightarrow> real) \<Rightarrow> provider_result list
     \<Rightarrow> thrown + item list" where
  "news_merge level extractDomain rnd providerResults =
     (case (if level = ''strict''
            then news_strict extractDomain (fst (collect_weighted rnd providerResults ([], 0)))
            else Inr (fst (collect_weighted rnd providerResults ([], 0)))) of
        Inl e \<Rightarrow> Inl e
      | Inr allArticles \<Rightarrow> Inr (js_slice (rank (news_dedup allArticles [])) 0 50))"

definition image_aggregate ::
  "(nat \<Rightarrow> real) \<Rightarrow> (string \<Rightarrow> call_result) \<Rightarrow> (string \<Rightarrow> call_result)
     \<Rightarrow> thrown + item list" where
  "image_aggregate rnd primary additional =
     (case settle_all imageProviders primary of
        Rejected e \<Rightarrow> Inl e
      | Resolved providerResults \<Rightarrow> image_merge rnd additional providerResults)"

definition video_aggregate ::
  "(nat \<Rightarrow> real) \<Rightarrow> (string \<Rightarrow> call_result) \<Rightarrow> (string \<Rightarrow> call_result)
     \<Rightarrow> thrown + item list" where
  "video_aggregate rnd primary additional =
     (case settle_all videoProviders primary of
        Rejected e \<Rightarrow> Inl e
      | Resolved providerResults \<Rightarrow> video_merge rnd additional providerResults)"

definition news_aggregate ::
  "string \<Rightarrow> (string \<Rightarrow> string) \<Rightarrow> (nat \<Rightarrow> real) \<Rightarrow> (string \<Rightarrow> call_result)
     \<Rightarrow> thrown + item list" where
  "news_aggregate level extractDomain rnd primary =
     (case settle_all newsProviders primary of
        Rejected e \<Rightarrow> Inl e
      | Resolved providerResults \<Rightarrow> news_merge level extractDomain rnd providerResults)"

text \<open>
  The cache lines that open and close each search function: a hit returns the cached
  array; a miss runs the aggregation, stores its result under the key and returns it; an
  aggregation that throws stores nothing.  The cache is read at time \<open>now\<close> and written at
  time \<open>later\<close>; the calls of other requests that may run between the two are not part of
  one search.
\<close>

definition with_cache ::
  "string \<Rightarrow> (thrown + item list) \<Rightarrow> int \<Rightarrow> int \<Rightarrow> item list cache_state
     \<Rightarrow> (thrown + item list) \<times> item list cache_state" where
  "with_cache cacheKey aggregation now later s =
     (case cacheGet cacheKey now s of
        (Some cached, s1) \<Rightarrow> (Inr cached, s1)
      | (None, s1) \<Rightarrow>
          (case aggregation of
             Inl e \<Rightarrow> (Inl e, s1)
           | Inr results \<Rightarrow> (Inr results, cacheSet cacheKey results None later s1)))"

text \<open>What the caller of \<^verbatim>\<open>webSearch\<close> receives is the page of results alone.\<close>

definition webSearch ::
  "string \<Rightarrow> int \<Rightarrow> string option \<Rightarrow> (string \<Rightarrow> call_result)
     \<Rightarrow> (string \<Rightarrow> nat \<Rightarrow> call_result) \<Rightarrow> int \<Rightarrow> int \<Rightarrow> item list cache_state
     \<Rightarrow> (thrown + item list) \<times> item list cache_state" where
  "webSearch query page safe primary additional now later s =
     with_cache (web_key query page (getSafeSearchParam safe))
       (map_sum (\<lambda>e. e) pagedResults
          (web_aggregate (getSafeSearchParam safe) page primary additional))
       now later s"

definition imageSearch ::
  "string \<Rightarrow> string option \<Rightarrow> (nat \<Rightarrow> real) \<Rightarrow> (string \<Rightarrow> call_result)
     \<Rightarrow> (string \<Rightarrow> call_result) \<Rightarrow> int \<Rightarrow> int \<Rightarrow> item list cache_state
     \<Rightarrow> (thrown + item list) \<times> item list cache_state" where
  "imageSearch query safe rnd primary additional now later s =
     with_cache (''img:'' @ query @ '':'' @ getSafeSearchParam safe)
       (image_aggregate rnd primary additional) now later s"

definition videoSearch ::
  "string \<Rightarrow> string option \<Rightarrow> (nat \<Rightarrow> real) \<Rightarrow> (string \<Rightarrow> call_result)
     \<Rightarrow> (string \<Rightarrow> call_result) \<Rightarrow> int \<Rightarrow> int \<Rightarrow> item list cache_state
     \<Rightarrow> (thrown + item list) \<times> item list cache_state" where
  "videoSearch query safe rnd primary additional now later s =
     with_cache (''vid:'' @ query @ '':'' @ getSafeSearchParam safe)
       (video_aggregate rnd primary additional) now later s"

definition newsSearch ::
  "string \<Rightarrow> string option \<Rightarrow> (string \<Rightarrow> string) \<Rightarrow> (nat \<Rightarrow> real)
     \<Rightarrow> (string \<Rightarrow> call_result) \<Rightarrow> int \<Rightarrow> int \<Rightarrow> item list cache_state
     \<Rightarrow> (thrown + item list) \<times> item list cache_state" where
  "newsSearch query safe extractDomain rnd primary now later s =
     with_cache (''news:'' @ query @ '':'' @ getSafeSearchParam safe)
       (news_aggregate (getSafeSearchParam safe) extractDomain rnd primary) now later s"

text \<open>
  The states of the cache that the four searches and \<^verbatim>\<open>cacheClear\<close> can produce from the
  empty cache.  (The weather and GitHub searches store under keys that begin with
  \<open>weather:\<close> and \<open>github:\<close>; their payloads are not result lists and are left out.)
\<close>

inductive reachable :: "item list cache_state \<Rightarrow> bool" where
  start: "reachable empty_cache"
| web: "reachable s \<Longrightarrow>
        reachable (snd (webSearch query page safe primary additional now later s))"
| image: "reachable s \<Longrightarrow>
        reachable (snd (imageSearch query safe rnd primary additional' now later s))"
| video: "reachable s \<Longrightarrow>
        reachable (snd (videoSearch query safe rnd primary additional' now later s))"
| news: "reachable s \<Longrightarrow>
        reachable (snd (newsSearch query safe extractDomain rnd primary now later s))"
| clear: "reachable s \<Longrightarrow> reachable (cacheClear s)"

section \<open>Invariants and closed forms used in the proofs\<close>

text \<open>The invariant of the cache: keys are distinct and the size is within the maximum.\<close>

definition cache_ok :: "'d cache_state \<Rightarrow> bool" where
  "cache_ok s \<longleftrightarrow> distinct (map fst (CACHE s)) \<and> length (CACHE s) \<le> MAX_CACHE_SIZE"

text \<open>Every cached payload satisfies \<open>P\<close> under its key.\<close>

definition payloads :: "(string \<Rightarrow> 'd \<Rightarrow> bool) \<Rightarrow> 'd cache_state \<Rightarrow> bool" where
  "payloads P s \<longleftrightarrow> (\<forall>p \<in> set (CACHE s). P (fst p) (entry_d (snd p)))"

text \<open>
  The property of the cached payloads that the searches keep: under a key of \<^verbatim>\<open>webSearch\<close> at most
  \<^verbatim>\<open>RESULTS_PER_PAGE\<close> results with distinct urls, under a key of \<^verbatim>\<open>imageSearch\<close> at most
  150 with distinct images, under a key of \<^verbatim>\<open>videoSearch\<close> at most 150 with distinct urls,
  under a key of \<^verbatim>\<open>newsSearch\<close> at most 50 with distinct urls.
\<close>

definition payload_ok :: "string \<Rightarrow> item list \<Rightarrow> bool" where
  "payload_ok k d \<longleftrightarrow>
     (starts_with k ''web:'' \<longrightarrow> length d \<le> RESULTS_PER_PAGE \<and> distinct (map url d))
     \<and> (starts_with k ''img:'' \<longrightarrow> length d \<le> 150 \<and> distinct (map image_src d))
     \<and> (starts_with k ''vid:'' \<longrightarrow> length d \<le> 150 \<and> distinct (map url d))
     \<and> (starts_with k ''news:'' \<longrightarrow> length d \<le> 50 \<and> distinct (map url d))"

text \<open>
  The invariant of the deduplication loop of \<^verbatim>\<open>webSearch\<close>, \<open>seen\<close> being the map and
  \<open>processed\<close> the results met so far: every value stands under its own url, is one of the
  results met and has the highest \<open>weightScore || 0\<close> among those with its url; and every
  result met that has a url has an entry.
\<close>

definition seen_inv :: "(string, item) js_map \<Rightarrow> item list \<Rightarrow> bool" where
  "seen_inv seen processed \<longleftrightarrow>
     (\<forall>k v. Map_get seen k = Some v \<longrightarrow>
        url v = Some k \<and> k \<noteq> [] \<and> v \<in> set processed
        \<and> (\<forall>x \<in> set processed. url x = Some k \<longrightarrow> ws0 x \<le> ws0 v))
     \<and> (\<forall>x \<in> set processed. truthy (url x) \<longrightarrow> Map_get seen (the (url x)) \<noteq> None)"

text \<open>
  With it goes the order of arrival: the value under a url is the first of the results met
  that has this url and this \<open>weightScore || 0\<close>.
\<close>

definition seen_first :: "(string, item) js_map \<Rightarrow> item list \<Rightarrow> bool" where
  "seen_first seen processed \<longleftrightarrow>
     (\<forall>k v. Map_get seen k = Some v \<longrightarrow>
        find (\<lambda>x. url x = Some k \<and> ws0 x = ws0 v) processed = Some v)"

text \<open>
  What a registered provider adds to \<open>allResults\<close>, by what its call settled with; the
  entries of \<open>errors\<close>, one for each provider whose call rejected with an error that has a
  message; and the calls of \<open>primary\<close> with every such rejection replaced by an empty
  result.
\<close>

definition settled :: "search_method \<Rightarrow> call_result \<Rightarrow> provider_result" where
  "settled m r =
     \<lparr>pr_name = method_name m,
      pr_results = (case r of Resolved res \<Rightarrow> or_empty res | Rejected x \<Rightarrow> []),
      pr_error = (case r of Resolved res \<Rightarrow> None
                  | Rejected x \<Rightarrow> (case x of Undefined \<Rightarrow> None | Error msg \<Rightarrow> Some msg)),
      pr_weight = method_weight m\<rparr>"

definition contribution :: "string \<Rightarrow> search_method \<Rightarrow> call_result \<Rightarrow> item list" where
  "contribution level m r =
     (case r of
        Resolved res \<Rightarrow> map (enrich level (settled m r)) (or_empty res)
      | Rejected x \<Rightarrow> [])"

definition failed_providers :: "(string \<Rightarrow> call_result) \<Rightarrow> (string \<times> string) list" where
  "failed_providers primary =
     concat (map (\<lambda>m. case primary (method_name m) of
                         Resolved res \<Rightarrow> []
                       | Rejected x \<Rightarrow>
                           (case x of
                              Undefined \<Rightarrow> []
                            | Error msg \<Rightarrow> if msg = [] then [] else [(method_name m, msg)]))
               searchMethods)"

definition silence :: "(string \<Rightarrow> call_result) \<Rightarrow> string \<Rightarrow> call_result" where
  "silence primary name =
     (case primary name of
        Resolved res \<Rightarrow> Resolved res
      | Rejected x \<Rightarrow> (case x of Undefined \<Rightarrow> Rejected Undefined | Error msg \<Rightarrow> Resolved None))"

text \<open>The number of calls of \<^verbatim>\<open>Math.random()\<close> that the weighting of provider results makes.\<close>

definition draws :: "provider_result list \<Rightarrow> nat" where
  "draws providerResults =
     sum_list (map (\<lambda>p. if truthy (pr_error p) then 0 else length (pr_results p))
                 providerResults)"

section \<open>Concrete inputs\<close>

text \<open>One entry stored at time 0 with a ttl of 100 ms, and one stored with a ttl of 0.\<close>

definition ttl_100_cache :: "string cache_state" where
  "ttl_100_cache = cacheSet ''k'' ''v'' (Some 100) 0 empty_cache"

definition ttl_0_cache :: "string cache_state" where
  "ttl_0_cache = cacheSet ''k'' ''v'' (Some 0) 0 empty_cache"

text \<open>Ten entries, the entry \<open>c\<close> the least recently stored.\<close>

definition ten_puts :: "string cache_op list" where
  "ten_puts =
     [Put ''a'' ''1'' None 7, Put ''b'' ''2'' None 8, Put ''c'' ''3'' None 2,
      Put ''d'' ''4'' None 9, Put ''e'' ''5'' None 10, Put ''f'' ''6'' None 11,
      Put ''g'' ''7'' None 12, Put ''h'' ''8'' None 13, Put ''i'' ''9'' None 14,
      Put ''j'' ''10'' None 15]"

text \<open>
  A history that fills the cache: \<^verbatim>\<open>MAX_CACHE_SIZE\<close> puts of distinct keys, the put number \<open>i\<close>
  of the key \<open>key_of i\<close> at the time \<open>i\<close>; and \<open>full_store a b\<close>, the entries of the puts
  from number \<open>a\<close> up to and without number \<open>b\<close>, in their order.
\<close>

definition key_of :: "nat \<Rightarrow> string" where
  "key_of i = replicate i CHR ''k''"

definition full_puts :: "string cache_op list" where
  "full_puts = map (\<lambda>i. Put (key_of i) ''v'' None (int i)) [0..<MAX_CACHE_SIZE]"

definition full_store :: "nat \<Rightarrow> nat \<Rightarrow> (string, string entry) js_map" where
  "full_store a b =
     map (\<lambda>i. (key_of i, \<lparr>entry_d = ''v'', entry_t = int i, entry_ttl = TTL_medium\<rparr>)) [a..<b]"

text \<open>Concrete provider results.  An item with a title, a url and a score, nothing else.\<close>

definition web_item :: "string \<Rightarrow> string \<Rightarrow> real option \<Rightarrow> item" where
  "web_item t u sc =
     \<lparr>title = t, url = Some u, image_src = None, videoId = None, score = sc, weight = None,
      weightScore = None, source = None, provider = None, safeSearch = None\<rparr>"

definition image_item :: "string \<Rightarrow> string \<Rightarrow> item" where
  "image_item t i =
     \<lparr>title = t, url = None, image_src = Some i, videoId = None, score = None, weight = None,
      weightScore = None, source = None, provider = None, safeSearch = None\<rparr>"

text \<open>
  A web search where DuckDuckGo and SearXNG return the same url, SearXNG with a score of 2
  and one more result with a score of 1/2, Brave fails, and the others return nothing.
\<close>

definition web_three :: "string \<Rightarrow> call_result" where
  "web_three name =
     (if name = ''DuckDuckGo''
      then Resolved (Some [web_item ''a'' ''http://x'' None, web_item ''b'' ''http://y'' None])
      else if name = ''SearXNG''
      then Resolved (Some [web_item ''c'' ''http://x'' (Some 2),
                           web_item ''d'' ''http://z'' (Some (1 / 2))])
      else if name = ''Brave'' then Rejected (Error ''boom'')
      else Resolved (Some []))"

definition searx_half :: "string \<Rightarrow> call_result" where
  "searx_half name =
     (if name = ''SearXNG'' then Resolved (Some [web_item ''d'' ''http://z'' (Some (1 / 2))])
      else Resolved (Some []))"

definition all_down :: "string \<Rightarrow> call_result" where
  "all_down name = Rejected (Error ''down'')"

definition all_silent :: "string \<Rightarrow> call_result" where
  "all_silent name = Resolved (Some [])"

definition startpage_5xx :: "string \<Rightarrow> call_result" where
  "startpage_5xx name = (if name = ''Startpage'' then Rejected Undefined else web_three name)"

definition no_pages :: "string \<Rightarrow> nat \<Rightarrow> call_result" where
  "no_pages name page = Rejected (Error ''down'')"

definition no_more :: "string \<Rightarrow> call_result" where
  "no_more name = Resolved None"

text \<open>
  Two news providers of equal weight that return the same url, and two image providers of
  equal weight with one image each; three sequences of values of \<^verbatim>\<open>Math.random()\<close>.
\<close>

definition news_same_url :: "provider_result list" where
  "news_same_url =
     [\<lparr>pr_name = ''Bing News'', pr_results = [web_item ''a'' ''http://x'' None],
       pr_error = None, pr_weight = 2\<rparr>,
      \<lparr>pr_name = ''Google News RSS'', pr_results = [web_item ''b'' ''http://x'' None],
       pr_error = None, pr_weight = 2\<rparr>]"

definition news_kept :: item where
  "news_kept = (web_item ''a'' ''http://x'' None)
     \<lparr>provider := Some ''Bing News'', weight := Some 2, score := Some 1\<rparr>"

definition news_dropped :: item where
  "news_dropped = (web_item ''b'' ''http://x'' None)
     \<lparr>provider := Some ''Google News RSS'', weight := Some 2, score := Some (19 / 10)\<rparr>"

text \<open>Two video providers, the second of the higher weight, that return the same url.\<close>

definition video_same_url :: "provider_result list" where
  "video_same_url =
     [\<lparr>pr_name = ''PeerTube'', pr_results = [web_item ''a'' ''http://v'' None],
       pr_error = None, pr_weight = 1\<rparr>,
      \<lparr>pr_name = ''Dailymotion'', pr_results = [web_item ''b'' ''http://v'' None],
       pr_error = None, pr_weight = 2\<rparr>]"

definition video_kept :: item where
  "video_kept = (web_item ''a'' ''http://v'' None)
     \<lparr>provider := Some ''PeerTube'', weight := Some 1, score := Some (3 / 4)\<rparr>"

definition video_dropped :: item where
  "video_dropped = (web_item ''b'' ''http://v'' None)
     \<lparr>provider := Some ''Dailymotion'', weight := Some 2, score := Some (3 / 2)\<rparr>"

definition rnd_half :: "nat \<Rightarrow> real" where
  "rnd_half i = 1 / 2"

definition two_images :: "provider_result list" where
  "two_images =
     [\<lparr>pr_name = ''Unsplash'', pr_results = [image_item ''a'' ''i1''],
       pr_error = None, pr_weight = 3\<rparr>,
      \<lparr>pr_name = ''Pexels'', pr_results = [image_item ''b'' ''i2''],
       pr_error = None, pr_weight = 3\<rparr>]"

definition rnd_low_high :: "nat \<Rightarrow> real" where
  "rnd_low_high i = (if i = 0 then 0 else 9 / 10)"

definition rnd_high_low :: "nat \<Rightarrow> real" where
  "rnd_high_low i = (if i = 0 then 9 / 10 else 0)"

definition rnd_high_low_high :: "nat \<Rightarrow> real" where
  "rnd_high_low_high i = (if i = 0 then 9 / 10 else if i = 1 then 0 else 9 / 10)"

definition same_domain :: "string \<Rightarrow> string" where
  "same_domain u = u"

text \<open>
  DuckDuckGo and Brave, of equal weight, return the same url without a score: the two
  results have the same \<open>weightScore\<close>.
\<close>

definition web_tie_results :: "provider_result list" where
  "web_tie_results =
     [\<lparr>pr_name = ''DuckDuckGo'', pr_results = [web_item ''a'' ''http://t'' None],
       pr_error = None, pr_weight = 3\<rparr>,
      \<lparr>pr_name = ''Brave'', pr_results = [web_item ''b'' ''http://t'' None],
       pr_error = None, pr_weight = 3\<rparr>]"

definition tie_first :: item where
  "tie_first = (web_item ''a'' ''http://t'' None)
     \<lparr>source := Some ''DuckDuckGo'', safeSearch := Some ''moderate'', weightScore := Some 3\<rparr>"

definition tie_second :: item where
  "tie_second = (web_item ''b'' ''http://t'' None)
     \<lparr>source := Some ''Brave'', safeSearch := Some ''moderate'', weightScore := Some 3\<rparr>"

text \<open>
  Provider calls that settle to the results of \<open>news_same_url\<close>, \<open>video_same_url\<close> and
  \<open>two_images\<close>, every other provider returning nothing, and the two images as returned.
\<close>

definition news_two :: "string \<Rightarrow> call_result" where
  "news_two name =
     (if name = ''Bing News'' then Resolved (Some [web_item ''a'' ''http://x'' None])
      else if name = ''Google News RSS'' then Resolved (Some [web_item ''b'' ''http://x'' None])
      else Resolved (Some []))"

definition video_two :: "string \<Rightarrow> call_result" where
  "video_two name =
     (if name = ''PeerTube'' then Resolved (Some [web_item ''a'' ''http://v'' None])
      else if name = ''Dailymotion'' then Resolved (Some [web_item ''b'' ''http://v'' None])
      else Resolved (Some []))"

definition image_two :: "string \<Rightarrow> call_result" where
  "image_two name =
     (if name = ''Unsplash'' then Resolved (Some [image_item ''a'' ''i1''])
      else if name = ''Pexels'' then Resolved (Some [image_item ''b'' ''i2''])
      else Resolved (Some []))"

definition image_a :: item where
  "image_a = (image_item ''a'' ''i1'')
     \<lparr>provider := Some ''Unsplash'', weight := Some 3, score := Some (9 / 4)\<rparr>"

definition image_b :: item where
  "image_b = (image_item ''b'' ''i2'')
     \<lparr>provider := Some ''Pexels'', weight := Some 3, score := Some (9 / 4)\<rparr>"

text \<open>The page that \<open>web_three\<close> gives, and the provider results it settles to.\<close>

definition web_three_page :: "item list" where
  "web_three_page =
     [(web_item ''c'' ''http://x'' (Some 2))
        \<lparr>source := Some ''SearXNG'', safeSearch := Some ''moderate'', weightScore := Some 4\<rparr>,
      (web_item ''b'' ''http://y'' None)
        \<lparr>source := Some ''DuckDuckGo'', safeSearch := Some ''moderate'', weightScore := Some 3\<rparr>,
      (web_item ''d'' ''http://z'' (Some (1 / 2)))
        \<lparr>source := Some ''SearXNG'', safeSearch := Some ''moderate'', weightScore := Some 1\<rparr>]"

definition web_three_results :: "provider_result list" where
  "web_three_results = map (\<lambda>m. settled m (web_three (method_name m))) searchMethods"

definition all_down_errors :: "(string \<times> string) list" where
  "all_down_errors =
     [(''DuckDuckGo'', ''down''), (''Brave'', ''down''), (''Startpage'', ''down''),
      (''Qwant'', ''down''), (''SearXNG'', ''down''), (''Mojeek'', ''down''),
      (''GoogleFallback'', ''down'')]"

section \<open>Facts about the \<^verbatim>\<open>Map\<close> model\<close>

lemma Map_get_Map_set: "Map_get (Map_set k v m) k' = (if k' = k then Some v else Map_get m k')"
  by (induction m) auto

lemma Map_get_Map_delete:
  "Map_get (Map_delete k m) k' = (if k' = k then None else Map_get m k')"
  unfolding Map_delete_def by (induction m) auto

lemma Map_get_Some_mem: "Map_get m k = Some v \<Longrightarrow> (k, v) \<in> set m"
  by (induction m) (auto split: if_splits)

lemma Map_get_mem_distinct:
  "distinct (map fst m) \<Longrightarrow> (k, v) \<in> set m \<Longrightarrow> Map_get m k = Some v"
proof (induction m)
  case Nil
  then show ?case by simp
next
  case (Cons p m)
  obtain k' v' where p: "p = (k', v')" by (cases p)
  show ?case
  proof (cases "k' = k")
    case True
    have "(k, v) \<notin> set m"
      using Cons.prems(1) p True by (auto simp: image_iff)
    then show ?thesis using Cons.prems(2) p True by simp
  next
    case False
    then show ?thesis using Cons p by simp
  qed
qed

lemma Map_get_None_iff: "Map_get m k = None \<longleftrightarrow> k \<notin> fst ` set m"
proof (induction m)
  case Nil
  then show ?case by simp
next
  case (Cons p m)
  obtain k' v' where p: "p = (k', v')" by (cases p)
  show ?case using Cons.IH by (auto simp: p)
qed

lemma Map_set_fresh: "k \<notin> fst ` set m \<Longrightarrow> Map_set k v m = m @ [(k, v)]"
proof (induction m)
  case Nil
  then show ?case by simp
next
  case (Cons p m)
  obtain k' v' where p: "p = (k', v')" by (cases p)
  show ?case using Cons by (auto simp: p)
qed

lemma Map_get_append:
  "Map_get (m @ m') k = (case Map_get m k of None \<Rightarrow> Map_get m' k | Some v \<Rightarrow> Some v)"
proof (induction m)
  case Nil
  then show ?case by simp
next
  case (Cons p m)
  obtain k' v' where p: "p = (k', v')" by (cases p)
  show ?case using Cons by (simp add: p)
qed

lemma keys_Map_set: "fst ` set (Map_set k v m) = insert k (fst ` set m)"
proof (induction m)
  case Nil
  then show ?case by simp
next
  case (Cons p m)
  obtain k' v' where p: "p = (k', v')" by (cases p)
  show ?case using Cons.IH by (simp add: p insert_commute)
qed

lemma distinct_Map_set: "distinct (map fst m) \<Longrightarrow> distinct (map fst (Map_set k v m))"
proof (induction m)
  case Nil
  then show ?case by simp
next
  case (Cons p m)
  obtain k' v' where p: "p = (k', v')" by (cases p)
  show ?case using Cons by (auto simp: p keys_Map_set)
qed

lemma distinct_Map_delete: "distinct (map fst m) \<Longrightarrow> distinct (map fst (Map_delete k m))"
  by (simp add: Map_delete_def distinct_map_filter)

lemma length_Map_set_le: "length (Map_set k v m) \<le> Suc (length m)"
  by (induction m) auto

lemma length_Map_set_present: "Map_get m k = Some e \<Longrightarrow> length (Map_set k v m) = length m"
  by (induction m) (auto split: if_splits)

lemma length_Map_delete_le: "length (Map_delete k m) \<le> length m"
  by (simp add: Map_delete_def)

lemma fold_Map_delete:
  "fold (\<lambda>p m. Map_delete (fst p) m) ps m = filter (\<lambda>q. fst q \<notin> fst ` set ps) m"
proof (induction ps arbitrary: m)
  case Nil
  then show ?case by simp
next
  case (Cons p ps)
  have "fold (\<lambda>p m. Map_delete (fst p) m) (p # ps) m
        = fold (\<lambda>p m. Map_delete (fst p) m) ps (Map_delete (fst p) m)"
    by simp
  also have "\<dots> = filter (\<lambda>q. fst q \<notin> fst ` set ps) (Map_delete (fst p) m)"
    by (rule Cons.IH)
  also have "\<dots> = filter (\<lambda>q. fst q \<notin> fst ` set (p # ps)) m"
    by (simp add: Map_delete_def conj_commute)
  finally show ?case .
qed

lemma same_key_same_pair:
  assumes "distinct (map fst m)" "p \<in> set m" "q \<in> set m" "fst p = fst q"
  shows "p = q"
proof -
  have "inj_on fst (set m)" using assms(1) by (simp add: distinct_map)
  then show ?thesis using assms(2-4) by (auto dest: inj_onD)
qed

lemma length_remove_keys:
  assumes "distinct (map fst m)" "distinct (map fst ps)" "set ps \<subseteq> set m"
  shows "length (filter (\<lambda>q. fst q \<notin> fst ` set ps) m) = length m - length ps"
proof -
  have dm: "distinct m" using assms(1) by (simp add: distinct_map)
  have dp: "distinct ps" using assms(2) by (simp add: distinct_map)
  have eq: "{q \<in> set m. fst q \<notin> fst ` set ps} = set m - set ps"
  proof (intro equalityI subsetI)
    fix q assume "q \<in> {q \<in> set m. fst q \<notin> fst ` set ps}"
    then show "q \<in> set m - set ps" by force
  next
    fix q assume q: "q \<in> set m - set ps"
    have "fst q \<notin> fst ` set ps"
    proof
      assume "fst q \<in> fst ` set ps"
      then obtain r where r: "r \<in> set ps" "fst r = fst q" by force
      then have "r \<in> set m" using assms(3) by blast
      then have "r = q" using same_key_same_pair [OF assms(1)] q r(2) by blast
      then show False using q r(1) by simp
    qed
    then show "q \<in> {q \<in> set m. fst q \<notin> fst ` set ps}" using q by simp
  qed
  have "length (filter (\<lambda>q. fst q \<notin> fst ` set ps) m)
        = card {q \<in> set m. fst q \<notin> fst ` set ps}"
    using dm by (simp add: distinct_length_filter Int_def conj_commute)
  also have "\<dots> = card (set m - set ps)" by (simp only: eq)
  also have "\<dots> = card (set m) - card (set ps)"
    using assms(3) by (simp add: card_Diff_subset)
  also have "\<dots> = length m - length ps"
    using dm dp by (simp add: distinct_card)
  finally show ?thesis .
qed

section \<open>The cache\<close>

lemma evict_oldest_filter:
  "evict_oldest c =
     filter (\<lambda>q. fst q \<notin> fst ` set (take (length c div 10) (sort_key (\<lambda>p. entry_t (snd p)) c))) c"
  by (simp add: evict_oldest_def Let_def fold_Map_delete)

lemma distinct_evict_oldest: "distinct (map fst c) \<Longrightarrow> distinct (map fst (evict_oldest c))"
  by (simp only: evict_oldest_filter distinct_map_filter)

lemma distinct_sweep_expired: "distinct (map fst c) \<Longrightarrow> distinct (map fst (sweep_expired now c))"
  by (simp add: sweep_expired_def distinct_map_filter)

lemma length_sweep_expired: "length (sweep_expired now c) \<le> length c"
  by (simp add: sweep_expired_def)

lemma length_evict_oldest:
  assumes "distinct (map fst c)"
  shows "length (evict_oldest c) = length c - length c div 10"
proof -
  let ?es = "sort_key (\<lambda>p. entry_t (snd p)) c"
  let ?ps = "take (length c div 10) ?es"
  have "distinct (map fst ?es)"
    using assms by (simp add: distinct_map)
  then have "distinct (take (length c div 10) (map fst ?es))"
    by (rule distinct_take)
  then have d: "distinct (map fst ?ps)" by (simp only: take_map)
  have sub: "set ?ps \<subseteq> set c" using set_take_subset [of "length c div 10" ?es] by simp
  have "length ?ps = length c div 10" by simp
  then show ?thesis
    using length_remove_keys [OF assms d sub] by (simp only: evict_oldest_filter)
qed

lemma evict_oldest_takes_oldest:
  assumes "distinct (map fst c)" "p \<in> set c" "p \<notin> set (evict_oldest c)"
    and "q \<in> set (evict_oldest c)"
  shows "entry_t (snd p) \<le> entry_t (snd q)"
proof -
  let ?f = "\<lambda>p. entry_t (snd p)"
  let ?es = "sort_key ?f c"
  let ?n = "length c div 10"
  have "map ?f (take ?n ?es) @ map ?f (drop ?n ?es) = map ?f ?es"
    by (simp flip: map_append)
  moreover have "sorted (map ?f ?es)" by simp
  ultimately have "sorted (map ?f (take ?n ?es) @ map ?f (drop ?n ?es))"
    by simp
  then have ord: "\<forall>x \<in> set (take ?n ?es). \<forall>y \<in> set (drop ?n ?es). ?f x \<le> ?f y"
    by (simp add: sorted_append)
  have "fst p \<in> fst ` set (take ?n ?es)"
    using assms(2,3) by (simp add: evict_oldest_filter)
  then obtain r where r: "r \<in> set (take ?n ?es)" "fst r = fst p" by force
  then have "r \<in> set c" using set_take_subset [of ?n ?es] by auto
  then have "r = p" using same_key_same_pair [OF assms(1)] assms(2) r(2) by blast
  then have p: "p \<in> set (take ?n ?es)" using r(1) by simp
  have q: "q \<in> set c" "fst q \<notin> fst ` set (take ?n ?es)"
    using assms(4) by (simp_all add: evict_oldest_filter)
  then have "q \<notin> set (take ?n ?es)" by force
  moreover have "set (take ?n ?es) \<union> set (drop ?n ?es) = set c"
    by (simp flip: set_append)
  then have "q \<in> set (take ?n ?es) \<union> set (drop ?n ?es)"
    using q(1) by simp
  ultimately have "q \<in> set (drop ?n ?es)" by simp
  then show ?thesis using ord p by blast
qed

lemma cache_ok_empty: "cache_ok empty_cache"
  by (simp add: cache_ok_def empty_cache_def)

lemma cache_ok_cacheClear: "cache_ok (cacheClear s)"
  by (simp add: cache_ok_def cacheClear_def)

lemma cache_ok_cacheGet:
  assumes "cache_ok s"
  shows "cache_ok (snd (cacheGet key now s))"
proof (cases "Map_get (CACHE s) key")
  case None
  then show ?thesis using assms by (simp add: cacheGet_def cache_ok_def)
next
  case (Some e)
  have a: "length (Map_delete key (CACHE s)) \<le> MAX_CACHE_SIZE"
    using assms length_Map_delete_le [of key "CACHE s"] by (simp add: cache_ok_def)
  have b: "length (Map_set key (e\<lparr>entry_t := now\<rparr>) (CACHE s)) \<le> MAX_CACHE_SIZE"
    using assms length_Map_set_present [OF Some] by (simp add: cache_ok_def)
  show ?thesis
    using assms Some a b
    by (simp add: cacheGet_def cache_ok_def Let_def distinct_Map_set distinct_Map_delete)
qed

lemma cache_ok_cacheSet:
  assumes "cache_ok s"
  shows "cache_ok (cacheSet key data ttl now s)"
proof -
  let ?e = "\<lparr>entry_d = data, entry_t = now,
             entry_ttl = (case ttl of None \<Rightarrow> TTL_medium | Some x \<Rightarrow> x)\<rparr>"
  have d: "distinct (map fst (CACHE s))" and l: "length (CACHE s) \<le> MAX_CACHE_SIZE"
    using assms by (simp_all add: cache_ok_def)
  show ?thesis
  proof (cases "length (CACHE s) \<ge> MAX_CACHE_SIZE")
    case True
    let ?c = "sweep_expired now (evict_oldest (CACHE s))"
    have len: "length (CACHE s) = 10000" using True l by (simp add: MAX_CACHE_SIZE_def)
    have "length (evict_oldest (CACHE s)) = 9000"
      using length_evict_oldest [OF d] len by simp
    then have "length ?c \<le> 9000"
      using length_sweep_expired [of now "evict_oldest (CACHE s)"] by simp
    then have "length (Map_set key ?e ?c) \<le> MAX_CACHE_SIZE"
      using length_Map_set_le [of key ?e ?c] by (simp add: MAX_CACHE_SIZE_def)
    moreover have "distinct (map fst (Map_set key ?e ?c))"
      by (intro distinct_Map_set distinct_sweep_expired distinct_evict_oldest d)
    ultimately show ?thesis using True by (simp add: cacheSet_def cache_ok_def)
  next
    case False
    then have "length (Map_set key ?e (CACHE s)) \<le> MAX_CACHE_SIZE"
      using length_Map_set_le [of key ?e "CACHE s"] by simp
    moreover have "distinct (map fst (Map_set key ?e (CACHE s)))"
      by (intro distinct_Map_set d)
    ultimately show ?thesis using False by (simp add: cacheSet_def cache_ok_def)
  qed
qed

lemma cache_ok_exec: "cache_ok s \<Longrightarrow> cache_ok (cache_exec op s)"
  by (cases op) (simp_all add: cache_ok_cacheGet cache_ok_cacheSet cache_ok_cacheClear)

lemma cache_ok_fold: "cache_ok s \<Longrightarrow> cache_ok (fold cache_exec ops s)"
  by (induction ops arbitrary: s) (simp_all add: cache_ok_exec)

lemma cache_ok_after: "cache_ok (cache_after ops)"
  unfolding cache_after_def by (rule cache_ok_fold [OF cache_ok_empty])

lemma cacheSet_admits:
  "Map_get (CACHE (cacheSet key data ttl now s)) key =
     Some \<lparr>entry_d = data, entry_t = now,
           entry_ttl = (case ttl of None \<Rightarrow> TTL_medium | Some x \<Rightarrow> x)\<rparr>"
  by (simp add: cacheSet_def Let_def Map_get_Map_set)

text \<open>The store after the puts of \<open>full_puts\<close>, and its clean-up.\<close>

lemma key_of_inj: "key_of i = key_of j \<longleftrightarrow> i = j"
  unfolding key_of_def by (metis length_replicate)

lemma keys_full_store: "fst ` set (full_store a b) = key_of ` {a..<b}"
  by (force simp: full_store_def)

lemma length_full_store: "length (full_store a b) = b - a"
  by (simp add: full_store_def)

lemma Map_get_full_store:
  "Map_get (full_store a b) (key_of i) =
     (if a \<le> i \<and> i < b
      then Some \<lparr>entry_d = ''v'', entry_t = int i, entry_ttl = TTL_medium\<rparr> else None)"
proof (cases "a \<le> i \<and> i < b")
  case True
  have d: "distinct (map fst (full_store a b))"
    by (simp add: full_store_def comp_def distinct_map inj_on_def key_of_inj)
  have "(key_of i, \<lparr>entry_d = ''v'', entry_t = int i, entry_ttl = TTL_medium\<rparr>)
        \<in> set (full_store a b)"
    using True by (simp add: full_store_def)
  from Map_get_mem_distinct [OF d this] True show ?thesis by simp
next
  case False
  then have "key_of i \<notin> fst ` set (full_store a b)"
    by (auto simp: keys_full_store key_of_inj)
  then have "Map_get (full_store a b) (key_of i) = None"
    by (simp add: Map_get_None_iff)
  then show ?thesis using False by simp
qed

lemma full_store_Suc:
  "a \<le> b \<Longrightarrow> full_store a (Suc b) = full_store a b @
     [(key_of b, \<lparr>entry_d = ''v'', entry_t = int b, entry_ttl = TTL_medium\<rparr>)]"
  by (simp add: full_store_def)

lemma puts_store:
  "n \<le> MAX_CACHE_SIZE \<Longrightarrow>
   fold cache_exec (map (\<lambda>i. Put (key_of i) ''v'' None (int i)) [0..<n]) empty_cache
   = \<lparr>CACHE = full_store 0 n, cacheHits = 0, cacheMisses = 0\<rparr>"
proof (induction n)
  case 0
  then show ?case by (simp add: empty_cache_def full_store_def)
next
  case (Suc n)
  have n: "n < MAX_CACHE_SIZE" using Suc.prems by simp
  have fresh: "key_of n \<notin> fst ` set (full_store 0 n)"
    by (auto simp: keys_full_store key_of_inj)
  show ?case
    using Suc.IH n
    by (simp add: cacheSet_def length_full_store Map_set_fresh [OF fresh] full_store_Suc)
qed

lemma full_puts_store: "CACHE (cache_after full_puts) = full_store 0 MAX_CACHE_SIZE"
  by (simp add: cache_after_def full_puts_def puts_store)

lemma sorted_full_store: "sorted (map (\<lambda>p. entry_t (snd p)) (full_store a b))"
proof -
  have "map (\<lambda>p. entry_t (snd p)) (full_store a b) = map int [a..<b]"
    by (simp add: full_store_def comp_def)
  moreover have "sorted (map int [a..<b])"
    by (rule sorted_map_mono) (auto simp: mono_on_def)
  ultimately show ?thesis by simp
qed

lemma filter_upt_ge: "k \<le> n \<Longrightarrow> filter (\<lambda>i. \<not> i < k) [0..<n] = [k..<n]"
proof (induction n)
  case 0
  then show ?case by simp
next
  case (Suc n)
  show ?case
  proof (cases "k = Suc n")
    case True
    then show ?thesis by (simp add: filter_empty_conv)
  next
    case False
    then have "k \<le> n" using Suc.prems by simp
    then show ?thesis using Suc.IH by simp
  qed
qed

lemma evict_oldest_full_store:
  "evict_oldest (full_store 0 n) = full_store (n div 10) n"
proof -
  let ?g = "\<lambda>i. (key_of i, \<lparr>entry_d = ''v'', entry_t = int i, entry_ttl = TTL_medium\<rparr>)"
  let ?k = "n div 10"
  have kn: "?k \<le> n" by simp
  have s: "sort_key (\<lambda>p. entry_t (snd p)) (full_store 0 n) = full_store 0 n"
    by (rule sort_key_id_if_sorted [OF sorted_full_store])
  have t: "take ?k (full_store 0 n) = full_store 0 ?k"
    using kn by (simp add: full_store_def take_map min_def)
  have k: "fst (?g i) \<notin> fst ` set (full_store 0 ?k) \<longleftrightarrow> \<not> i < ?k" for i
    by (auto simp: keys_full_store key_of_inj)
  have "filter (\<lambda>q. fst q \<notin> fst ` set (full_store 0 ?k)) (full_store 0 n)
        = map ?g (filter (\<lambda>i. \<not> i < ?k) [0..<n])"
    unfolding full_store_def [of 0 n] filter_map comp_def
    using k by simp
  also have "\<dots> = full_store ?k n"
    by (simp only: filter_upt_ge [OF kn] full_store_def)
  finally show ?thesis
    by (simp add: evict_oldest_filter length_full_store s t)
qed

lemma sweep_expired_full_store:
  "now \<le> TTL_medium \<Longrightarrow> sweep_expired now (full_store a b) = full_store a b"
  by (simp add: sweep_expired_def full_store_def ttl_or_medium_def TTL_medium_def
        filter_map comp_def)

lemma filter_upt_from: "a \<le> k \<Longrightarrow> k \<le> b \<Longrightarrow> filter (\<lambda>i. \<not> i < k) [a..<b] = [k..<b]"
proof (induction b)
  case 0
  then show ?case by simp
next
  case (Suc b)
  show ?case
  proof (cases "k = Suc b")
    case True
    then show ?thesis using Suc.prems by (auto simp: filter_empty_conv)
  next
    case False
    then have "k \<le> b" using Suc.prems by simp
    then show ?thesis using Suc.IH Suc.prems by simp
  qed
qed

lemma sweep_expired_full_store_late:
  assumes "a \<le> k" "k \<le> b"
  shows "sweep_expired (TTL_medium + int k) (full_store a b) = full_store k b"
proof -
  let ?g = "\<lambda>i. (key_of i, \<lparr>entry_d = ''v'', entry_t = int i, entry_ttl = TTL_medium\<rparr>)"
  have "sweep_expired (TTL_medium + int k) (full_store a b)
        = map ?g (filter (\<lambda>i. \<not> i < k) [a..<b])"
    by (simp add: sweep_expired_def full_store_def ttl_or_medium_def TTL_medium_def
          filter_map comp_def not_less)
  then show ?thesis by (simp only: filter_upt_from [OF assms] full_store_def)
qed

lemma filter_mem_filter: "filter (\<lambda>p. p \<in> set (filter P xs)) xs = filter P xs"
  by (rule filter_cong) auto

lemma ttl_or_medium_ge: "entry_ttl e \<le> ttl_or_medium e"
  by (simp add: ttl_or_medium_def TTL_medium_def)

section \<open>Claims about the cache\<close>

text \<open>
  C6, as the code has it.  A read of a key whose entry is older than its ttl returns
  absent, counts a miss and removes the entry; a read of a fresh entry returns the payload
  and counts a hit.  The ttl that decides is the stored one, except that a stored ttl of 0
  counts as \<^verbatim>\<open>TTL.medium\<close> (600000 ms).  So an entry put with a ttl other than 0 is absent
  when read more than that ttl after the put, whatever the cache held before.
\<close>

theorem cacheGet_expiry:
  "(Map_get (CACHE s) key = Some e \<longrightarrow>
     (if now - entry_t e > ttl_or_medium e
      then fst (cacheGet key now s) = None
         \<and> cacheMisses (snd (cacheGet key now s)) = cacheMisses s + 1
         \<and> cacheHits (snd (cacheGet key now s)) = cacheHits s
         \<and> Map_get (CACHE (snd (cacheGet key now s))) key = None
      else fst (cacheGet key now s) = Some (entry_d e)
         \<and> cacheHits (snd (cacheGet key now s)) = cacheHits s + 1
         \<and> cacheMisses (snd (cacheGet key now s)) = cacheMisses s))
   \<and> (ttl \<noteq> 0 \<and> now - stored > ttl \<longrightarrow>
        fst (cacheGet key now (cacheSet key data (Some ttl) stored s)) = None)
   \<and> (ttl \<noteq> 0 \<and> now - stored \<le> ttl \<longrightarrow>
        fst (cacheGet key now (cacheSet key data (Some ttl) stored s)) = Some data)"
proof (intro conjI impI)
  assume "Map_get (CACHE s) key = Some e"
  then show "if now - entry_t e > ttl_or_medium e
      then fst (cacheGet key now s) = None
         \<and> cacheMisses (snd (cacheGet key now s)) = cacheMisses s + 1
         \<and> cacheHits (snd (cacheGet key now s)) = cacheHits s
         \<and> Map_get (CACHE (snd (cacheGet key now s))) key = None
      else fst (cacheGet key now s) = Some (entry_d e)
         \<and> cacheHits (snd (cacheGet key now s)) = cacheHits s + 1
         \<and> cacheMisses (snd (cacheGet key now s)) = cacheMisses s"
    by (simp add: cacheGet_def Let_def Map_get_Map_delete)
next
  let ?s = "cacheSet key data (Some ttl) stored s"
  have put: "Map_get (CACHE ?s) key = Some \<lparr>entry_d = data, entry_t = stored, entry_ttl = ttl\<rparr>"
    using cacheSet_admits [of key data "Some ttl" stored s] by simp
  {
    assume "ttl \<noteq> 0 \<and> now - stored > ttl"
    then show "fst (cacheGet key now ?s) = None"
      using put by (simp add: cacheGet_def Let_def ttl_or_medium_def)
  next
    assume "ttl \<noteq> 0 \<and> now - stored \<le> ttl"
    then show "fst (cacheGet key now ?s) = Some data"
      using put by (simp add: cacheGet_def Let_def ttl_or_medium_def)
  }
qed

text \<open>
  The example of the specification: stored with a ttl of 100 ms, the entry is absent when
  read after 150 ms and present when read after 50 ms.
\<close>

theorem cacheGet_expiry_witness:
  "Map_get (CACHE ttl_100_cache) ''k'' = Some \<lparr>entry_d = ''v'', entry_t = 0, entry_ttl = 100\<rparr>
   \<and> fst (cacheGet ''k'' 150 ttl_100_cache) = None
   \<and> cacheMisses (snd (cacheGet ''k'' 150 ttl_100_cache)) = 1
   \<and> Map_get (CACHE (snd (cacheGet ''k'' 150 ttl_100_cache))) ''k'' = None
   \<and> fst (cacheGet ''k'' 50 ttl_100_cache) = Some ''v''
   \<and> cacheHits (snd (cacheGet ''k'' 50 ttl_100_cache)) = 1
   \<and> fst (cacheGet ''k'' 150 (cacheSet ''k'' ''v'' (Some 100) 0 empty_cache)) = None
   \<and> fst (cacheGet ''k'' 50 (cacheSet ''k'' ''v'' (Some 100) 0 empty_cache)) = Some ''v''"
proof -
  let ?e = "\<lparr>entry_d = ''v'', entry_t = 0, entry_ttl = 100\<rparr>"
  have e: "Map_get (CACHE ttl_100_cache) ''k'' = Some ?e"
    by (simp add: ttl_100_cache_def cacheSet_def empty_cache_def MAX_CACHE_SIZE_def)
  have c: "cacheMisses ttl_100_cache = 0" "cacheHits ttl_100_cache = 0"
    by (simp_all add: ttl_100_cache_def cacheSet_def empty_cache_def)
  show ?thesis
    using cacheGet_expiry [of ttl_100_cache "''k''" ?e 150 100 0 "''v''"]
      cacheGet_expiry [of ttl_100_cache "''k''" ?e 50 100 0 "''v''"]
      cacheGet_expiry [of empty_cache "''k''" ?e 150 100 0 "''v''"]
      cacheGet_expiry [of empty_cache "''k''" ?e 50 100 0 "''v''"] e c
    by (simp add: ttl_or_medium_def)
qed

text \<open>
  C6 as stated fails on an entry stored with a ttl of 0: read 5 ms later its age exceeds
  its ttl, and the read returns the payload.
\<close>

theorem cacheGet_zero_ttl_counterexample:
  "Map_get (CACHE ttl_0_cache) ''k'' = Some \<lparr>entry_d = ''v'', entry_t = 0, entry_ttl = 0\<rparr>
   \<and> (5::int) - 0 > 0
   \<and> fst (cacheGet ''k'' 5 ttl_0_cache) = Some ''v''"
  by (simp add: ttl_0_cache_def cacheSet_def cacheGet_def empty_cache_def MAX_CACHE_SIZE_def
        ttl_or_medium_def TTL_medium_def)

text \<open>
  C7.  After any history of cache calls the store holds at most \<^verbatim>\<open>MAX_CACHE_SIZE\<close> entries,
  and so it does after one more put.  A put into a store below the maximum sets its entry
  in the store as it is; a put into a store at the maximum first removes a tenth of the
  entries (rounded down), then the expired ones among the rest, and sets its entry in what
  is left, so that the store then holds at most nine tenths of the maximum plus one entry.
  The put always admits its entry.  Every entry that the first phase removes was stored or read no
  later than every entry it keeps, and the entries it keeps stay in their order; the second
  phase keeps exactly the entries that are not expired.
\<close>

theorem cacheSet_capacity:
  "length (CACHE (cache_after ops)) \<le> MAX_CACHE_SIZE
   \<and> length (CACHE (cacheSet key data ttl now (cache_after ops))) \<le> MAX_CACHE_SIZE
   \<and> CACHE (cacheSet key data ttl now (cache_after ops))
       = Map_set key
           \<lparr>entry_d = data, entry_t = now,
            entry_ttl = (case ttl of None \<Rightarrow> TTL_medium | Some x \<Rightarrow> x)\<rparr>
           (if length (CACHE (cache_after ops)) < MAX_CACHE_SIZE then CACHE (cache_after ops)
            else sweep_expired now (evict_oldest (CACHE (cache_after ops))))
   \<and> (length (CACHE (cache_after ops)) = MAX_CACHE_SIZE \<longrightarrow>
        length (CACHE (cacheSet key data ttl now (cache_after ops)))
          \<le> MAX_CACHE_SIZE - MAX_CACHE_SIZE div 10 + 1)
   \<and> Map_get (CACHE (cacheSet key data ttl now (cache_after ops))) key
       = Some \<lparr>entry_d = data, entry_t = now,
               entry_ttl = (case ttl of None \<Rightarrow> TTL_medium | Some x \<Rightarrow> x)\<rparr>
   \<and> length (evict_oldest (CACHE (cache_after ops)))
       = length (CACHE (cache_after ops)) - length (CACHE (cache_after ops)) div 10
   \<and> evict_oldest (CACHE (cache_after ops))
       = filter (\<lambda>p. p \<in> set (evict_oldest (CACHE (cache_after ops)))) (CACHE (cache_after ops))
   \<and> (\<forall>p \<in> set (CACHE (cache_after ops)) - set (evict_oldest (CACHE (cache_after ops))).
        \<forall>q \<in> set (evict_oldest (CACHE (cache_after ops))).
          entry_t (snd p) \<le> entry_t (snd q))
   \<and> sweep_expired now (evict_oldest (CACHE (cache_after ops)))
       = filter (\<lambda>p. now - entry_t (snd p) \<le> ttl_or_medium (snd p))
           (evict_oldest (CACHE (cache_after ops)))"
proof -
  let ?s = "cache_after ops"
  let ?e = "\<lparr>entry_d = data, entry_t = now,
             entry_ttl = (case ttl of None \<Rightarrow> TTL_medium | Some x \<Rightarrow> x)\<rparr>"
  have ok: "cache_ok ?s" by (rule cache_ok_after)
  then have d: "distinct (map fst (CACHE ?s))" by (simp add: cache_ok_def)
  have 1: "length (CACHE ?s) \<le> MAX_CACHE_SIZE"
    using ok by (simp add: cache_ok_def)
  have 2: "length (CACHE (cacheSet key data ttl now ?s)) \<le> MAX_CACHE_SIZE"
    using cache_ok_cacheSet [OF ok, of key data ttl now] by (simp add: cache_ok_def)
  have 3: "CACHE (cacheSet key data ttl now ?s)
       = Map_set key ?e
           (if length (CACHE ?s) < MAX_CACHE_SIZE then CACHE ?s
            else sweep_expired now (evict_oldest (CACHE ?s)))"
    by (simp add: cacheSet_def Let_def not_less)
  have 6: "length (evict_oldest (CACHE ?s)) = length (CACHE ?s) - length (CACHE ?s) div 10"
    by (rule length_evict_oldest [OF d])
  have 4: "length (CACHE (cacheSet key data ttl now ?s)) \<le> MAX_CACHE_SIZE - MAX_CACHE_SIZE div 10 + 1"
    if full: "length (CACHE ?s) = MAX_CACHE_SIZE"
  proof -
    let ?c = "sweep_expired now (evict_oldest (CACHE ?s))"
    have "length ?c \<le> MAX_CACHE_SIZE - MAX_CACHE_SIZE div 10"
      using length_sweep_expired [of now "evict_oldest (CACHE ?s)"] 6 full by simp
    moreover have "CACHE (cacheSet key data ttl now ?s) = Map_set key ?e ?c"
      using 3 full by simp
    ultimately show ?thesis using length_Map_set_le [of key ?e ?c] by simp
  qed
  have 5: "Map_get (CACHE (cacheSet key data ttl now ?s)) key = Some ?e"
    by (rule cacheSet_admits)
  have 7: "evict_oldest (CACHE ?s)
       = filter (\<lambda>p. p \<in> set (evict_oldest (CACHE ?s))) (CACHE ?s)"
    by (subst (1 2) evict_oldest_filter) (simp only: filter_mem_filter)
  have 8: "\<forall>p \<in> set (CACHE ?s) - set (evict_oldest (CACHE ?s)).
        \<forall>q \<in> set (evict_oldest (CACHE ?s)). entry_t (snd p) \<le> entry_t (snd q)"
    using evict_oldest_takes_oldest [OF d] by blast
  have 9: "sweep_expired now (evict_oldest (CACHE ?s))
       = filter (\<lambda>p. now - entry_t (snd p) \<le> ttl_or_medium (snd p)) (evict_oldest (CACHE ?s))"
    by (simp add: sweep_expired_def not_less)
  show ?thesis
    using 1 2 3 4 5 6 7 8 9 by (intro conjI impI)
qed

text \<open>
  On the ten entries of \<open>ten_puts\<close> a put adds its entry and removes nothing; the first
  phase of the clean-up would remove one entry, the oldest, \<open>c\<close>.  After the
  \<^verbatim>\<open>MAX_CACHE_SIZE\<close> puts of \<open>full_puts\<close> the store is full, and one more put of a new key
  removes the 1000 oldest entries: the store then holds 9001 entries, that of put number 999
  gone and that of put number 1000 kept.  When that put comes \<^verbatim>\<open>TTL.medium\<close> and 1500 ms after
  the start, the entries of the puts up to number 1499 have expired as well: the store then
  holds 8501 entries.
\<close>

theorem cacheSet_capacity_witness:
  "length (CACHE (cache_after ten_puts)) = 10
   \<and> length (CACHE (cacheSet ''z'' ''0'' None 20 (cache_after ten_puts))) = 11
   \<and> (''c'', \<lparr>entry_d = ''3'', entry_t = 2, entry_ttl = TTL_medium\<rparr>)
      \<in> set (CACHE (cache_after ten_puts)) - set (evict_oldest (CACHE (cache_after ten_puts)))
   \<and> (''a'', \<lparr>entry_d = ''1'', entry_t = 7, entry_ttl = TTL_medium\<rparr>)
      \<in> set (evict_oldest (CACHE (cache_after ten_puts)))
   \<and> length (evict_oldest (CACHE (cache_after ten_puts))) = 9
   \<and> (2::int) \<le> 7
   \<and> length (CACHE (cache_after full_puts)) = MAX_CACHE_SIZE
   \<and> CACHE (cacheSet (key_of MAX_CACHE_SIZE) ''v'' None (int MAX_CACHE_SIZE) (cache_after full_puts))
       = full_store (MAX_CACHE_SIZE div 10) (MAX_CACHE_SIZE + 1)
   \<and> length (CACHE (cacheSet (key_of MAX_CACHE_SIZE) ''v'' None (int MAX_CACHE_SIZE)
                (cache_after full_puts))) = 9001
   \<and> Map_get (CACHE (cacheSet (key_of MAX_CACHE_SIZE) ''v'' None (int MAX_CACHE_SIZE)
                (cache_after full_puts))) (key_of 999) = None
   \<and> Map_get (CACHE (cacheSet (key_of MAX_CACHE_SIZE) ''v'' None (int MAX_CACHE_SIZE)
                (cache_after full_puts))) (key_of 1000)
       = Some \<lparr>entry_d = ''v'', entry_t = 1000, entry_ttl = TTL_medium\<rparr>
   \<and> length (CACHE (cacheSet (key_of MAX_CACHE_SIZE) ''v'' None (TTL_medium + 1500)
                (cache_after full_puts))) = 8501
   \<and> Map_get (CACHE (cacheSet (key_of MAX_CACHE_SIZE) ''v'' None (TTL_medium + 1500)
                (cache_after full_puts))) (key_of 1499) = None
   \<and> Map_get (CACHE (cacheSet (key_of MAX_CACHE_SIZE) ''v'' None (TTL_medium + 1500)
                (cache_after full_puts))) (key_of 1500)
       = Some \<lparr>entry_d = ''v'', entry_t = 1500, entry_ttl = TTL_medium\<rparr>"
proof -
  let ?c = "(''c'', \<lparr>entry_d = ''3'', entry_t = 2, entry_ttl = TTL_medium\<rparr>)"
  let ?a = "(''a'', \<lparr>entry_d = ''1'', entry_t = 7, entry_ttl = TTL_medium\<rparr>)"
  have c: "CACHE (cache_after ten_puts) =
     [(''a'', \<lparr>entry_d = ''1'', entry_t = 7, entry_ttl = TTL_medium\<rparr>),
      (''b'', \<lparr>entry_d = ''2'', entry_t = 8, entry_ttl = TTL_medium\<rparr>),
      (''c'', \<lparr>entry_d = ''3'', entry_t = 2, entry_ttl = TTL_medium\<rparr>),
      (''d'', \<lparr>entry_d = ''4'', entry_t = 9, entry_ttl = TTL_medium\<rparr>),
      (''e'', \<lparr>entry_d = ''5'', entry_t = 10, entry_ttl = TTL_medium\<rparr>),
      (''f'', \<lparr>entry_d = ''6'', entry_t = 11, entry_ttl = TTL_medium\<rparr>),
      (''g'', \<lparr>entry_d = ''7'', entry_t = 12, entry_ttl = TTL_medium\<rparr>),
      (''h'', \<lparr>entry_d = ''8'', entry_t = 13, entry_ttl = TTL_medium\<rparr>),
      (''i'', \<lparr>entry_d = ''9'', entry_t = 14, entry_ttl = TTL_medium\<rparr>),
      (''j'', \<lparr>entry_d = ''10'', entry_t = 15, entry_ttl = TTL_medium\<rparr>)]"
    by (simp add: cache_after_def ten_puts_def cacheSet_def empty_cache_def MAX_CACHE_SIZE_def)
  have e: "evict_oldest (CACHE (cache_after ten_puts)) =
     [(''a'', \<lparr>entry_d = ''1'', entry_t = 7, entry_ttl = TTL_medium\<rparr>),
      (''b'', \<lparr>entry_d = ''2'', entry_t = 8, entry_ttl = TTL_medium\<rparr>),
      (''d'', \<lparr>entry_d = ''4'', entry_t = 9, entry_ttl = TTL_medium\<rparr>),
      (''e'', \<lparr>entry_d = ''5'', entry_t = 10, entry_ttl = TTL_medium\<rparr>),
      (''f'', \<lparr>entry_d = ''6'', entry_t = 11, entry_ttl = TTL_medium\<rparr>),
      (''g'', \<lparr>entry_d = ''7'', entry_t = 12, entry_ttl = TTL_medium\<rparr>),
      (''h'', \<lparr>entry_d = ''8'', entry_t = 13, entry_ttl = TTL_medium\<rparr>),
      (''i'', \<lparr>entry_d = ''9'', entry_t = 14, entry_ttl = TTL_medium\<rparr>),
      (''j'', \<lparr>entry_d = ''10'', entry_t = 15, entry_ttl = TTL_medium\<rparr>)]"
    unfolding c by (simp add: evict_oldest_def Map_delete_def)
  note ten = cacheSet_capacity [of ten_puts "''z''" "''0''" None 20]
  have t1: "length (CACHE (cache_after ten_puts)) = 10" by (simp add: c)
  have pc: "?c \<in> set (CACHE (cache_after ten_puts)) - set (evict_oldest (CACHE (cache_after ten_puts)))"
    unfolding e unfolding c by simp
  have qa: "?a \<in> set (evict_oldest (CACHE (cache_after ten_puts)))"
    unfolding e by simp
  have t2: "CACHE (cacheSet ''z'' ''0'' None 20 (cache_after ten_puts))
            = Map_set ''z'' \<lparr>entry_d = ''0'', entry_t = 20, entry_ttl = TTL_medium\<rparr>
                (CACHE (cache_after ten_puts))"
    using ten [THEN conjunct2, THEN conjunct2, THEN conjunct1] t1
    by (simp add: MAX_CACHE_SIZE_def)
  have t3: "length (CACHE (cacheSet ''z'' ''0'' None 20 (cache_after ten_puts))) = 11"
    unfolding t2 unfolding c by simp
  have t4: "length (evict_oldest (CACHE (cache_after ten_puts))) = 9"
    using ten [THEN conjunct2, THEN conjunct2, THEN conjunct2, THEN conjunct2, THEN conjunct2,
               THEN conjunct1] t1
    by simp
  have "entry_t (snd ?c) \<le> entry_t (snd ?a)"
    using ten [THEN conjunct2, THEN conjunct2, THEN conjunct2, THEN conjunct2, THEN conjunct2,
               THEN conjunct2, THEN conjunct2, THEN conjunct1] pc qa
    by blast
  then have t5: "(2::int) \<le> 7" by simp
  let ?k = "key_of MAX_CACHE_SIZE"
  let ?n = "int MAX_CACHE_SIZE"
  note full = cacheSet_capacity [of full_puts ?k "''v''" None ?n]
  have f1: "length (CACHE (cache_after full_puts)) = MAX_CACHE_SIZE"
    by (simp add: full_puts_store length_full_store)
  have now: "?n \<le> TTL_medium" by (simp add: MAX_CACHE_SIZE_def TTL_medium_def)
  have fresh: "?k \<notin> fst ` set (full_store (MAX_CACHE_SIZE div 10) MAX_CACHE_SIZE)"
    by (auto simp: keys_full_store key_of_inj)
  have "CACHE (cacheSet ?k ''v'' None ?n (cache_after full_puts))
        = Map_set ?k \<lparr>entry_d = ''v'', entry_t = ?n, entry_ttl = TTL_medium\<rparr>
            (sweep_expired ?n (evict_oldest (CACHE (cache_after full_puts))))"
    using full [THEN conjunct2, THEN conjunct2, THEN conjunct1] f1 by simp
  also have "\<dots> = Map_set ?k \<lparr>entry_d = ''v'', entry_t = ?n, entry_ttl = TTL_medium\<rparr>
                     (full_store (MAX_CACHE_SIZE div 10) MAX_CACHE_SIZE)"
    by (simp only: full_puts_store evict_oldest_full_store sweep_expired_full_store [OF now])
  also have "\<dots> = full_store (MAX_CACHE_SIZE div 10) (MAX_CACHE_SIZE + 1)"
    by (simp add: Map_set_fresh [OF fresh] full_store_Suc)
  finally have f2: "CACHE (cacheSet ?k ''v'' None ?n (cache_after full_puts))
        = full_store (MAX_CACHE_SIZE div 10) (MAX_CACHE_SIZE + 1)" .
  have f3: "length (CACHE (cacheSet ?k ''v'' None ?n (cache_after full_puts))) = 9001"
    unfolding f2 by (simp add: length_full_store MAX_CACHE_SIZE_def)
  have f4: "Map_get (CACHE (cacheSet ?k ''v'' None ?n (cache_after full_puts))) (key_of 999) = None"
    unfolding f2 by (simp add: Map_get_full_store MAX_CACHE_SIZE_def)
  have f5: "Map_get (CACHE (cacheSet ?k ''v'' None ?n (cache_after full_puts))) (key_of 1000)
            = Some \<lparr>entry_d = ''v'', entry_t = 1000, entry_ttl = TTL_medium\<rparr>"
    unfolding f2 by (simp add: Map_get_full_store MAX_CACHE_SIZE_def)
  let ?late = "TTL_medium + 1500"
  let ?e = "\<lparr>entry_d = ''v'', entry_t = ?late, entry_ttl = TTL_medium\<rparr>"
  note late = cacheSet_capacity [of full_puts ?k "''v''" None ?late]
  have sw: "sweep_expired ?late (full_store (MAX_CACHE_SIZE div 10) MAX_CACHE_SIZE)
            = full_store 1500 MAX_CACHE_SIZE"
    using sweep_expired_full_store_late [of "MAX_CACHE_SIZE div 10" 1500 MAX_CACHE_SIZE]
    by (simp add: MAX_CACHE_SIZE_def)
  have fresh_late: "?k \<notin> fst ` set (full_store 1500 MAX_CACHE_SIZE)"
    by (auto simp: keys_full_store key_of_inj)
  have "CACHE (cacheSet ?k ''v'' None ?late (cache_after full_puts))
        = Map_set ?k ?e (sweep_expired ?late (evict_oldest (CACHE (cache_after full_puts))))"
    using late [THEN conjunct2, THEN conjunct2, THEN conjunct1] f1 by simp
  also have "\<dots> = Map_set ?k ?e (full_store 1500 MAX_CACHE_SIZE)"
    by (simp only: full_puts_store evict_oldest_full_store sw)
  also have "\<dots> = full_store 1500 MAX_CACHE_SIZE @ [(?k, ?e)]"
    by (rule Map_set_fresh [OF fresh_late])
  finally have l2: "CACHE (cacheSet ?k ''v'' None ?late (cache_after full_puts))
        = full_store 1500 MAX_CACHE_SIZE @ [(?k, ?e)]" .
  have l3: "length (CACHE (cacheSet ?k ''v'' None ?late (cache_after full_puts))) = 8501"
    unfolding l2 by (simp add: length_full_store MAX_CACHE_SIZE_def)
  have l4: "Map_get (CACHE (cacheSet ?k ''v'' None ?late (cache_after full_puts))) (key_of 1499)
            = None"
    unfolding l2 by (simp add: Map_get_append Map_get_full_store key_of_inj MAX_CACHE_SIZE_def)
  have l5: "Map_get (CACHE (cacheSet ?k ''v'' None ?late (cache_after full_puts))) (key_of 1500)
            = Some \<lparr>entry_d = ''v'', entry_t = 1500, entry_ttl = TTL_medium\<rparr>"
    unfolding l2 by (simp add: Map_get_append Map_get_full_store MAX_CACHE_SIZE_def)
  show ?thesis
    using t1 t3 pc qa t4 t5 f1 f2 f3 f4 f5 l3 l4 l5 by (intro conjI)
qed

text \<open>
  C9.  A fresh read stores the time of the read in the entry, so an entry whose reads
  follow one another within its ttl is returned by every one of them, whatever the time
  since it was put, and whatever other keys are read in between.
\<close>

theorem cacheGet_refreshes_timestamp:
  assumes "Map_get (CACHE s) key = Some e"
    and "read_within key (entry_ttl e) (entry_t e) rs"
  shows "list_all (\<lambda>(k, r). k = key \<longrightarrow> r = Some (entry_d e))
           (zip (map fst rs) (fst (cacheGets rs s)))
       \<and> Map_get (CACHE (snd (cacheGets rs s))) key
           = Some (e\<lparr>entry_t := last_read key (entry_t e) rs\<rparr>)"
  using assms
proof (induction rs arbitrary: s e)
  case Nil
  then show ?case by simp
next
  case (Cons kr rs)
  obtain k now where kr: "kr = (k, now)" by (cases kr)
  obtain r s1 where g: "cacheGet k now s = (r, s1)" by (cases "cacheGet k now s")
  obtain out s2 where gs: "cacheGets rs s1 = (out, s2)" by (cases "cacheGets rs s1")
  show ?case
  proof (cases "k = key")
    case True
    have fresh: "\<not> now - entry_t e > ttl_or_medium e"
      using Cons.prems(2) ttl_or_medium_ge [of e] by (simp add: kr True)
    let ?e' = "e\<lparr>entry_t := now\<rparr>"
    have g': "cacheGet key now s = (r, s1)" using g True by simp
    have r: "r = Some (entry_d e)" and s1: "Map_get (CACHE s1) key = Some ?e'"
      using g' Cons.prems(1) fresh
      by (auto simp: cacheGet_def Let_def Map_get_Map_set)
    have rw: "read_within key (entry_ttl ?e') (entry_t ?e') rs"
      using Cons.prems(2) by (simp add: kr True)
    show ?thesis
      using Cons.IH [OF s1 rw] r by (simp add: kr True g' gs)
  next
    case False
    have s1: "Map_get (CACHE s1) key = Some e"
      using g Cons.prems(1) False
      by (auto simp: cacheGet_def Let_def Map_get_Map_set Map_get_Map_delete
               split: option.splits if_splits)
    have rw: "read_within key (entry_ttl e) (entry_t e) rs"
      using Cons.prems(2) False by (simp add: kr)
    show ?thesis
      using Cons.IH [OF s1 rw] False by (simp add: kr g gs)
  qed
qed

text \<open>
  Stored at time 0 with a ttl of 100 ms and read at 80, 160, 240 and 320 ms, the entry is
  returned each time, and its timestamp is 320 in the end.
\<close>

theorem cacheGet_refreshes_timestamp_witness:
  "Map_get (CACHE ttl_100_cache) ''k'' = Some \<lparr>entry_d = ''v'', entry_t = 0, entry_ttl = 100\<rparr>
   \<and> read_within ''k'' 100 0 [(''k'', 80), (''other'', 100), (''k'', 160), (''k'', 240), (''k'', 320)]
   \<and> fst (cacheGets [(''k'', 80), (''other'', 100), (''k'', 160), (''k'', 240), (''k'', 320)]
            ttl_100_cache)
       = [Some ''v'', None, Some ''v'', Some ''v'', Some ''v'']
   \<and> Map_get (CACHE (snd (cacheGets
         [(''k'', 80), (''other'', 100), (''k'', 160), (''k'', 240), (''k'', 320)] ttl_100_cache)))
         ''k''
       = Some \<lparr>entry_d = ''v'', entry_t = 320, entry_ttl = 100\<rparr>"
proof -
  have e: "Map_get (CACHE ttl_100_cache) ''k''
           = Some \<lparr>entry_d = ''v'', entry_t = 0, entry_ttl = 100\<rparr>"
    by (simp add: ttl_100_cache_def cacheSet_def empty_cache_def MAX_CACHE_SIZE_def)
  have r: "read_within ''k'' (entry_ttl \<lparr>entry_d = ''v'', entry_t = 0, entry_ttl = 100\<rparr>)
             (entry_t \<lparr>entry_d = ''v'', entry_t = 0, entry_ttl = 100\<rparr>)
             [(''k'', 80), (''other'', 100), (''k'', 160), (''k'', 240), (''k'', 320)]"
    by simp
  have g: "fst (cacheGets [(''k'', 80), (''other'', 100), (''k'', 160), (''k'', 240), (''k'', 320)]
            ttl_100_cache)
       = [Some ''v'', None, Some ''v'', Some ''v'', Some ''v'']"
    by (simp add: ttl_100_cache_def cacheSet_def empty_cache_def MAX_CACHE_SIZE_def
          cacheGet_def ttl_or_medium_def)
  show ?thesis
    using cacheGet_refreshes_timestamp [OF e r] e g by simp
qed

section \<open>fetchWithRetry\<close>

lemma try_attempt_non_retryable:
  "non_retryable fr \<Longrightarrow> try_attempt i fr = Throws (thrown_message fr)"
  by (auto simp: non_retryable_def try_attempt_def thrown_message_def response_ok_def
           split: fetch_result.splits body.splits)

lemma try_attempt_server_error:
  "server_error fr \<Longrightarrow> \<exists>w. try_attempt i fr = Continues w"
  by (auto simp: server_error_def try_attempt_def response_ok_def split: fetch_result.splits)

text \<open>From attempt \<open>i\<close> on every attempt throws: the loop runs to the last attempt.\<close>

lemma fetch_attempts_all_throw:
  assumes "\<forall>j. i \<le> j \<and> j < n \<longrightarrow> try_attempt j (net j) = Throws (msg j)" and "i < n"
  shows "fetch_attempts net n i le ds =
           \<lparr>outcome = Inl (Error (failed_after n (msg (n - 1)))), fetches = n,
            delays = ds @ map (\<lambda>j. 1000 * 2 ^ j) [i..<n - 1]\<rparr>"
  using assms
proof (induction "n - i" arbitrary: i le ds)
  case 0
  then show ?case by simp
next
  case (Suc k)
  have t: "try_attempt i (net i) = Throws (msg i)" using Suc.prems by simp
  show ?case
  proof (cases "i = n - 1")
    case True
    then show ?thesis using Suc.prems(2) t by (subst fetch_attempts.simps) simp
  next
    case False
    then have lt: "Suc i < n" using Suc.prems(2) by simp
    have k: "k = n - Suc i" using Suc.hyps(2) by simp
    have all: "\<forall>j. Suc i \<le> j \<and> j < n \<longrightarrow> try_attempt j (net j) = Throws (msg j)"
      using Suc.prems(1) by simp
    have "fetch_attempts net n i le ds =
            fetch_attempts net n (Suc i) (Error (msg i)) (ds @ [1000 * 2 ^ i])"
      using Suc.prems(2) t False by (subst fetch_attempts.simps) simp
    also have "\<dots> = \<lparr>outcome = Inl (Error (failed_after n (msg (n - 1)))), fetches = n,
            delays = (ds @ [1000 * 2 ^ i]) @ map (\<lambda>j. 1000 * 2 ^ j) [Suc i..<n - 1]\<rparr>"
      by (rule Suc.hyps(1) [OF k all lt])
    finally show ?thesis using lt by (simp add: upt_conv_Cons)
  qed
qed

text \<open>From attempt \<open>i\<close> on every attempt waits and continues: the loop runs out.\<close>

lemma fetch_attempts_all_continue:
  assumes "\<forall>j. i \<le> j \<and> j < n \<longrightarrow> (\<exists>w. try_attempt j (net j) = Continues w)"
  shows "outcome (fetch_attempts net n i le ds) = Inl le
       \<and> fetches (fetch_attempts net n i le ds) = max i n
       \<and> length (delays (fetch_attempts net n i le ds)) = length ds + (n - i)"
  using assms
proof (induction "n - i" arbitrary: i ds)
  case 0
  then show ?case by (subst (1 2 3) fetch_attempts.simps) simp
next
  case (Suc k)
  have lt: "i < n" using Suc.hyps(2) by simp
  obtain w where w: "try_attempt i (net i) = Continues w" using Suc.prems lt by auto
  have k: "k = n - Suc i" using Suc.hyps(2) by simp
  have all: "\<forall>j. Suc i \<le> j \<and> j < n \<longrightarrow> (\<exists>w. try_attempt j (net j) = Continues w)"
    using Suc.prems by simp
  have step: "fetch_attempts net n i le ds = fetch_attempts net n (Suc i) le (ds @ [w])"
    using lt w by (subst fetch_attempts.simps) simp
  show ?case
    using Suc.hyps(1) [OF k all, of "ds @ [w]"] lt by (simp add: step)
qed

text \<open>
  C3, evaluated on the code.  The branch for 429 and 5xx is the only one that waits and
  continues; the \<^verbatim>\<open>throw\<close> for every other status that is not \<open>ok\<close> stands inside the \<^verbatim>\<open>try\<close>
  block, so the \<^verbatim>\<open>catch\<close> of the same loop receives it like a transport error and the
  failure does not leave the function.  When every attempt meets a non-retryable condition,
  \<^verbatim>\<open>fetch\<close> is called \<open>maxRetries\<close> times, with a wait of \<open>1000 * 2 ^ attempt\<close> ms after every
  attempt but the last, and only the last attempt ends in the terminal failure, which
  carries the message of its error.
\<close>

theorem fetchWithRetry_non_retryable:
  "0 < maxRetries \<Longrightarrow> \<forall>i < maxRetries. non_retryable (net i) \<Longrightarrow>
   fetchWithRetry net maxRetries =
     \<lparr>outcome = Inl (Error (failed_after maxRetries (thrown_message (net (maxRetries - 1))))),
      fetches = maxRetries,
      delays = map (\<lambda>i. 1000 * 2 ^ i) [0..<maxRetries - 1]\<rparr>"
proof -
  assume n: "0 < maxRetries" and nr: "\<forall>i < maxRetries. non_retryable (net i)"
  have "\<forall>j. 0 \<le> j \<and> j < maxRetries \<longrightarrow>
          try_attempt j (net j) = Throws (thrown_message (net j))"
    using nr try_attempt_non_retryable by blast
  from fetch_attempts_all_throw [OF this n, of Undefined "[]"]
  show ?thesis by (simp add: fetchWithRetry_def)
qed

text \<open>A server that answers 404 each time, with the default of five attempts.\<close>

theorem fetchWithRetry_non_retryable_witness:
  "0 < MAX_RETRIES \<and> non_retryable not_found
   \<and> fetchWithRetry (\<lambda>i. not_found) MAX_RETRIES =
       \<lparr>outcome = Inl (Error ''Failed after 5 attempts: HTTP 404: Not Found''),
        fetches = 5, delays = [1000, 2000, 4000, 8000]\<rparr>"
proof -
  have n: "0 < (5::nat)" by simp
  have nr: "\<forall>i < (5::nat). non_retryable ((\<lambda>i. not_found) i)"
    by (simp add: non_retryable_def not_found_def)
  have m: "failed_after 5 (thrown_message not_found)
           = ''Failed after 5 attempts: HTTP 404: Not Found''"
    by (simp add: failed_after_def thrown_message_def not_found_def response_ok_def
          digit_char_def string_of_nat.simps)
  have u: "map (\<lambda>i. 1000 * 2 ^ i) [0..<4] = [1000, 2000, 4000, 8000 :: int]"
    by (simp add: upt_rec)
  have nf: "non_retryable not_found" by (simp add: non_retryable_def not_found_def)
  show ?thesis
    using fetchWithRetry_non_retryable [OF n nr] nf by (simp add: m u MAX_RETRIES_def)
qed

text \<open>
  C3 fails on the code: the first attempt gets a 404, which is not the end of the call.  The
  function waits 1000 ms, calls \<^verbatim>\<open>fetch\<close> a second time and returns the body of the 200.
\<close>

theorem fetchWithRetry_retries_404_counterexample:
  "non_retryable (net_404_then_200 0)
   \<and> fetchWithRetry net_404_then_200 MAX_RETRIES =
       \<lparr>outcome = Inr ''<html>'', fetches = 2, delays = [1000]\<rparr>"
  by (simp add: fetchWithRetry_def net_404_then_200_def not_found_def found_def
        non_retryable_def try_attempt_def response_ok_def MAX_RETRIES_def fetch_attempts.simps)

text \<open>
  C4, evaluated on the code.  When every attempt gets a 5xx response, \<^verbatim>\<open>fetch\<close> is called
  \<open>maxRetries\<close> times and the function waits after each of them, the last included; the
  branch never assigns \<open>lastError\<close>, so the \<^verbatim>\<open>throw lastError\<close> below the loop throws
  \<^verbatim>\<open>undefined\<close>: the failure carries nothing of the responses.
\<close>

theorem fetchWithRetry_all_5xx:
  "\<forall>i < maxRetries. server_error (net i) \<Longrightarrow>
   outcome (fetchWithRetry net maxRetries) = Inl Undefined
   \<and> fetches (fetchWithRetry net maxRetries) = maxRetries
   \<and> length (delays (fetchWithRetry net maxRetries)) = maxRetries"
proof -
  assume se: "\<forall>i < maxRetries. server_error (net i)"
  have "\<forall>j. 0 \<le> j \<and> j < maxRetries \<longrightarrow> (\<exists>w. try_attempt j (net j) = Continues w)"
    using se try_attempt_server_error by blast
  from fetch_attempts_all_continue [OF this, of Undefined "[]"]
  show ?thesis by (simp add: fetchWithRetry_def)
qed

text \<open>A server that answers 500 each time, with the default of five attempts.\<close>

theorem fetchWithRetry_all_5xx_witness:
  "server_error unavailable
   \<and> fetchWithRetry (\<lambda>i. unavailable) MAX_RETRIES =
       \<lparr>outcome = Inl Undefined, fetches = 5, delays = [1000, 2000, 3000, 4000, 5000]\<rparr>"
proof -
  have se: "\<forall>i < MAX_RETRIES. server_error ((\<lambda>i. unavailable) i)"
    by (simp add: server_error_def unavailable_def)
  have d: "delays (fetchWithRetry (\<lambda>i. unavailable) MAX_RETRIES)
           = [1000, 2000, 3000, 4000, 5000]"
    by (simp add: fetchWithRetry_def unavailable_def try_attempt_def response_ok_def
          MAX_RETRIES_def fetch_attempts.simps)
  have su: "server_error unavailable" by (simp add: server_error_def unavailable_def)
  show ?thesis
    using fetchWithRetry_all_5xx [OF se] su d
    by (cases "fetchWithRetry (\<lambda>i. unavailable) MAX_RETRIES") (simp add: MAX_RETRIES_def)
qed

section \<open>Deduplication and ranking in webSearch\<close>

lemma truthy_the: "truthy x \<Longrightarrow> x = Some (the x) \<and> the x \<noteq> []"
  by (cases x) (simp_all add: truthy_def)

lemma seen_inv_skip:
  assumes "seen_inv seen processed" "\<not> truthy (url r)"
  shows "seen_inv seen (processed @ [r])"
proof -
  have "\<And>k. k \<noteq> [] \<Longrightarrow> url r \<noteq> Some k"
    using assms(2) by (auto simp: truthy_def)
  then show ?thesis
    using assms unfolding seen_inv_def by auto
qed

lemma seen_inv_new:
  assumes "seen_inv seen processed" "truthy (url r)" "Map_get seen (the (url r)) = None"
  shows "seen_inv (Map_set (the (url r)) r seen) (processed @ [r])"
proof -
  let ?u = "the (url r)"
  have u: "url r = Some ?u" "?u \<noteq> []" using truthy_the [OF assms(2)] by simp_all
  have fresh: "\<And>x. x \<in> set processed \<Longrightarrow> url x \<noteq> Some ?u"
  proof
    fix x assume x: "x \<in> set processed" "url x = Some ?u"
    then have "truthy (url x)" using u(2) by (simp add: truthy_def)
    then have "Map_get seen (the (url x)) \<noteq> None"
      using assms(1) x(1) unfolding seen_inv_def by blast
    then show False using assms(3) x(2) by simp
  qed
  show ?thesis
    unfolding seen_inv_def
  proof (intro conjI allI impI ballI)
    fix k v assume g: "Map_get (Map_set ?u r seen) k = Some v"
    show "url v = Some k" "k \<noteq> []" "v \<in> set (processed @ [r])"
      using g assms(1) u unfolding seen_inv_def
      by (auto simp: Map_get_Map_set split: if_splits)
    fix x assume x: "x \<in> set (processed @ [r])" "url x = Some k"
    show "ws0 x \<le> ws0 v"
    proof (cases "k = ?u")
      case True
      then have "v = r" using g by (simp add: Map_get_Map_set)
      moreover have "x = r" using x fresh True by auto
      ultimately show ?thesis by simp
    next
      case False
      then have gv: "Map_get seen k = Some v" using g by (simp add: Map_get_Map_set)
      have "x \<noteq> r" using x(2) u(1) False by auto
      then have "x \<in> set processed" using x(1) by simp
      then show ?thesis using assms(1) gv x(2) unfolding seen_inv_def by blast
    qed
  next
    fix x assume x: "x \<in> set (processed @ [r])" "truthy (url x)"
    show "Map_get (Map_set ?u r seen) (the (url x)) \<noteq> None"
      using x assms(1) unfolding seen_inv_def
      by (auto simp: Map_get_Map_set)
  qed
qed

lemma seen_inv_replace:
  assumes "seen_inv seen processed" "truthy (url r)"
    and "Map_get seen (the (url r)) = Some existing" "ws0 r > ws0 existing"
  shows "seen_inv (Map_set (the (url r)) r seen) (processed @ [r])"
proof -
  let ?u = "the (url r)"
  have u: "url r = Some ?u" "?u \<noteq> []" using truthy_the [OF assms(2)] by simp_all
  have below: "\<And>x. x \<in> set processed \<Longrightarrow> url x = Some ?u \<Longrightarrow> ws0 x \<le> ws0 existing"
    using assms(1,3) unfolding seen_inv_def by blast
  show ?thesis
    unfolding seen_inv_def
  proof (intro conjI allI impI ballI)
    fix k v assume g: "Map_get (Map_set ?u r seen) k = Some v"
    show "url v = Some k" "k \<noteq> []" "v \<in> set (processed @ [r])"
      using g assms(1) u unfolding seen_inv_def
      by (auto simp: Map_get_Map_set split: if_splits)
    fix x assume x: "x \<in> set (processed @ [r])" "url x = Some k"
    show "ws0 x \<le> ws0 v"
    proof (cases "k = ?u")
      case True
      then have v: "v = r" using g by (simp add: Map_get_Map_set)
      show ?thesis
      proof (cases "x = r")
        case True
        then show ?thesis using v by simp
      next
        case False
        then have "x \<in> set processed" using x(1) by simp
        then have "ws0 x \<le> ws0 existing" using below x(2) \<open>k = ?u\<close> by simp
        then show ?thesis using assms(4) v by simp
      qed
    next
      case False
      then have gv: "Map_get seen k = Some v" using g by (simp add: Map_get_Map_set)
      have "x \<noteq> r" using x(2) u(1) False by auto
      then have "x \<in> set processed" using x(1) by simp
      then show ?thesis using assms(1) gv x(2) unfolding seen_inv_def by blast
    qed
  next
    fix x assume x: "x \<in> set (processed @ [r])" "truthy (url x)"
    show "Map_get (Map_set ?u r seen) (the (url x)) \<noteq> None"
      using x assms(1) unfolding seen_inv_def
      by (auto simp: Map_get_Map_set)
  qed
qed

lemma seen_inv_keep:
  assumes "seen_inv seen processed" "truthy (url r)"
    and "Map_get seen (the (url r)) = Some existing" "\<not> ws0 r > ws0 existing"
  shows "seen_inv seen (processed @ [r])"
proof -
  let ?u = "the (url r)"
  have u: "url r = Some ?u" "?u \<noteq> []" using truthy_the [OF assms(2)] by simp_all
  show ?thesis
    unfolding seen_inv_def
  proof (intro conjI allI impI ballI)
    fix k v assume g: "Map_get seen k = Some v"
    show "url v = Some k" "k \<noteq> []" "v \<in> set (processed @ [r])"
      using g assms(1) unfolding seen_inv_def by auto
    fix x assume x: "x \<in> set (processed @ [r])" "url x = Some k"
    show "ws0 x \<le> ws0 v"
    proof (cases "x = r")
      case True
      then have "k = ?u" using x(2) u(1) by simp
      then have "v = existing" using g assms(3) by simp
      then show ?thesis using assms(4) True by simp
    next
      case False
      then have "x \<in> set processed" using x(1) by simp
      then show ?thesis using assms(1) g x(2) unfolding seen_inv_def by blast
    qed
  next
    fix x assume x: "x \<in> set (processed @ [r])" "truthy (url x)"
    show "Map_get seen (the (url x)) \<noteq> None"
    proof (cases "x = r")
      case True
      then show ?thesis using assms(3) by simp
    next
      case False
      then have "x \<in> set processed" using x(1) by simp
      then show ?thesis using assms(1) x(2) unfolding seen_inv_def by blast
    qed
  qed
qed

lemma seen_inv_web_seen:
  "seen_inv seen processed \<Longrightarrow> seen_inv (web_seen xs seen) (processed @ xs)"
proof (induction xs arbitrary: seen processed)
  case Nil
  then show ?case by simp
next
  case (Cons r xs)
  have app: "processed @ r # xs = (processed @ [r]) @ xs" by simp
  show ?case
  proof (cases "truthy (url r)")
    case False
    show ?thesis
      using Cons.IH [OF seen_inv_skip [OF Cons.prems False]] False
      by (simp only: app) simp
  next
    case True
    show ?thesis
    proof (cases "Map_get seen (the (url r))")
      case None
      show ?thesis
        using Cons.IH [OF seen_inv_new [OF Cons.prems True None]] True None
        by (simp only: app) simp
    next
      case (Some existing)
      show ?thesis
      proof (cases "ws0 r > ws0 existing")
        case gt: True
        show ?thesis
          using Cons.IH [OF seen_inv_replace [OF Cons.prems True Some gt]] True Some gt
          by (simp only: app) simp
      next
        case le: False
        show ?thesis
          using Cons.IH [OF seen_inv_keep [OF Cons.prems True Some le]] True Some le
          by (simp only: app) simp
      qed
    qed
  qed
qed

lemma distinct_web_seen:
  "distinct (map fst seen) \<Longrightarrow> distinct (map fst (web_seen xs seen))"
  by (induction xs arbitrary: seen) (auto simp: distinct_Map_set split: option.splits)

lemma seen_inv_final: "seen_inv (web_seen xs []) xs"
proof -
  have "seen_inv [] []" by (simp add: seen_inv_def)
  from seen_inv_web_seen [OF this, of xs] show ?thesis by simp
qed

lemma web_unique_set: "set (web_unique xs) = snd ` set (web_seen xs [])"
  by (simp add: web_unique_def Map_values_def)

lemma web_unique_member:
  assumes "r \<in> set (web_unique xs)"
  shows "truthy (url r) \<and> r \<in> set xs \<and> (\<forall>x \<in> set xs. url x = url r \<longrightarrow> ws0 x \<le> ws0 r)"
proof -
  obtain k where k: "(k, r) \<in> set (web_seen xs [])"
    using assms by (auto simp: web_unique_set)
  have d: "distinct (map fst (web_seen xs []))" by (rule distinct_web_seen) simp
  have g: "Map_get (web_seen xs []) k = Some r" by (rule Map_get_mem_distinct [OF d k])
  have "url r = Some k \<and> k \<noteq> [] \<and> r \<in> set xs
        \<and> (\<forall>x \<in> set xs. url x = Some k \<longrightarrow> ws0 x \<le> ws0 r)"
    using seen_inv_final [of xs] g unfolding seen_inv_def by blast
  then show ?thesis by (simp add: truthy_def)
qed

lemma web_unique_covers:
  assumes "x \<in> set xs" "truthy (url x)"
  shows "\<exists>r \<in> set (web_unique xs). url r = url x"
proof -
  have "Map_get (web_seen xs []) (the (url x)) \<noteq> None"
    using seen_inv_final [of xs] assms unfolding seen_inv_def by blast
  then obtain r where g: "Map_get (web_seen xs []) (the (url x)) = Some r" by auto
  have "url r = Some (the (url x))"
    using seen_inv_final [of xs] g unfolding seen_inv_def by blast
  then have "url r = url x" using truthy_the [OF assms(2)] by simp
  moreover have "r \<in> set (web_unique xs)"
    using Map_get_Some_mem [OF g] by (force simp: web_unique_set)
  ultimately show ?thesis by blast
qed

text \<open>Which of the results with the highest \<open>weightScore\<close> stays: the first.\<close>

lemma find_append:
  "find P (xs @ ys) = (case find P xs of None \<Rightarrow> find P ys | Some x \<Rightarrow> Some x)"
  by (induction xs) simp_all

lemma seen_first_more: "seen_first seen processed \<Longrightarrow> seen_first seen (processed @ ys)"
  by (simp add: seen_first_def find_append)

lemma seen_first_set:
  assumes "seen_first seen processed"
    and none: "\<forall>x \<in> set processed. url x = url r \<longrightarrow> ws0 x \<noteq> ws0 r"
    and u: "url r = Some k"
  shows "seen_first (Map_set k r seen) (processed @ [r])"
  unfolding seen_first_def
proof (intro allI impI)
  fix k' v assume g: "Map_get (Map_set k r seen) k' = Some v"
  show "find (\<lambda>x. url x = Some k' \<and> ws0 x = ws0 v) (processed @ [r]) = Some v"
  proof (cases "k' = k")
    case True
    then have v: "v = r" using g by (simp add: Map_get_Map_set)
    have "find (\<lambda>x. url x = Some k \<and> ws0 x = ws0 r) processed = None"
      using none u by (auto simp: find_None_iff)
    then show ?thesis using True v u by (simp add: find_append)
  next
    case False
    then have "Map_get seen k' = Some v" using g by (simp add: Map_get_Map_set)
    then have "find (\<lambda>x. url x = Some k' \<and> ws0 x = ws0 v) processed = Some v"
      using assms(1) by (simp add: seen_first_def)
    then show ?thesis by (simp add: find_append)
  qed
qed

lemma seen_first_web_seen:
  "seen_inv seen processed \<Longrightarrow> seen_first seen processed \<Longrightarrow>
   seen_first (web_seen xs seen) (processed @ xs)"
proof (induction xs arbitrary: seen processed)
  case Nil
  then show ?case by simp
next
  case (Cons r xs)
  have app: "processed @ r # xs = (processed @ [r]) @ xs" by simp
  show ?case
  proof (cases "truthy (url r)")
    case False
    show ?thesis
      using Cons.IH [OF seen_inv_skip [OF Cons.prems(1) False] seen_first_more [OF Cons.prems(2)]]
        False
      by (simp only: app) simp
  next
    case True
    have u: "url r = Some (the (url r))" using truthy_the [OF True] by simp
    show ?thesis
    proof (cases "Map_get seen (the (url r))")
      case None
      have "\<forall>x \<in> set processed. url x = url r \<longrightarrow> ws0 x \<noteq> ws0 r"
      proof (intro ballI impI)
        fix x assume x: "x \<in> set processed" "url x = url r"
        then have "truthy (url x)" using True by simp
        then have "Map_get seen (the (url x)) \<noteq> None"
          using Cons.prems(1) x(1) unfolding seen_inv_def by blast
        then show "ws0 x \<noteq> ws0 r" using None x(2) by simp
      qed
      from seen_first_set [OF Cons.prems(2) this u]
      show ?thesis
        using Cons.IH [OF seen_inv_new [OF Cons.prems(1) True None]] True None
        by (simp only: app) simp
    next
      case (Some existing)
      show ?thesis
      proof (cases "ws0 r > ws0 existing")
        case gt: True
        have "\<forall>x \<in> set processed. url x = url r \<longrightarrow> ws0 x \<noteq> ws0 r"
        proof (intro ballI impI)
          fix x assume x: "x \<in> set processed" "url x = url r"
          then have "url x = Some (the (url r))" using u by simp
          then have "ws0 x \<le> ws0 existing"
            using Cons.prems(1) Some x(1) unfolding seen_inv_def by blast
          then show "ws0 x \<noteq> ws0 r" using gt by simp
        qed
        from seen_first_set [OF Cons.prems(2) this u]
        show ?thesis
          using Cons.IH [OF seen_inv_replace [OF Cons.prems(1) True Some gt]] True Some gt
          by (simp only: app) simp
      next
        case le: False
        show ?thesis
          using Cons.IH [OF seen_inv_keep [OF Cons.prems(1) True Some le]
                  seen_first_more [OF Cons.prems(2)]] True Some le
          by (simp only: app) simp
      qed
    qed
  qed
qed

lemma seen_first_final: "seen_first (web_seen xs []) xs"
proof -
  have "seen_inv [] []" "seen_first [] []" by (simp_all add: seen_inv_def seen_first_def)
  from seen_first_web_seen [OF this, of xs] show ?thesis by simp
qed

lemma web_unique_first:
  assumes "r \<in> set (web_unique xs)"
  shows "find (\<lambda>x. url x = url r \<and> ws0 x = ws0 r) xs = Some r"
proof -
  obtain k where k: "(k, r) \<in> set (web_seen xs [])"
    using assms by (auto simp: web_unique_set)
  have d: "distinct (map fst (web_seen xs []))" by (rule distinct_web_seen) simp
  have g: "Map_get (web_seen xs []) k = Some r" by (rule Map_get_mem_distinct [OF d k])
  have "url r = Some k" using seen_inv_final [of xs] g unfolding seen_inv_def by blast
  moreover have "find (\<lambda>x. url x = Some k \<and> ws0 x = ws0 r) xs = Some r"
    using seen_first_final [of xs] g unfolding seen_first_def by blast
  ultimately show ?thesis by simp
qed

lemma distinct_url_web_unique: "distinct (map url (web_unique xs))"
proof -
  let ?m = "web_seen xs []"
  have d: "distinct (map fst ?m)" by (rule distinct_web_seen) simp
  have "\<forall>p \<in> set ?m. url (snd p) = Some (fst p)"
  proof
    fix p assume p: "p \<in> set ?m"
    then have "Map_get ?m (fst p) = Some (snd p)"
      using Map_get_mem_distinct [OF d, of "fst p" "snd p"] by simp
    then show "url (snd p) = Some (fst p)"
      using seen_inv_final [of xs] unfolding seen_inv_def by blast
  qed
  then have eq: "map url (map snd ?m) = map Some (map fst ?m)" by simp
  have "distinct (map Some (map fst ?m))"
    using d by (subst distinct_map) simp
  then have dv: "distinct (map url (Map_values ?m))"
    by (simp only: Map_values_def eq)
  then show ?thesis
    by (simp add: web_unique_def distinct_map)
qed

lemma set_take_drop: "set (take n (drop k xs)) \<subseteq> set xs"
  using set_take_subset [of n "drop k xs"] set_drop_subset [of k xs] by (rule subset_trans)

lemma set_js_slice: "set (js_slice xs a b) \<subseteq> set xs"
  unfolding js_slice_def Let_def by (rule set_take_drop)

lemma distinct_map_take_drop:
  assumes "distinct (map f xs)"
  shows "distinct (map f (take n (drop k xs)))"
proof -
  have "distinct (take n (drop k (map f xs)))"
    by (intro distinct_take distinct_drop assms)
  then show ?thesis by (simp only: take_map drop_map)
qed

lemma distinct_map_js_slice: "distinct (map f xs) \<Longrightarrow> distinct (map f (js_slice xs a b))"
  unfolding js_slice_def Let_def by (rule distinct_map_take_drop)

lemma length_js_slice:
  assumes "a \<le> b"
  shows "length (js_slice xs a b) \<le> nat (b - a)"
proof -
  define n where "n = int (length xs)"
  define k where "k = (if a < 0 then max (n + a) 0 else min a n)"
  define f where "f = (if b < 0 then max (n + b) 0 else min b n)"
  have n: "0 \<le> n" by (simp add: n_def)
  have "f - k \<le> b - a"
  proof (cases "a < 0")
    case True
    show ?thesis
    proof (cases "b < 0")
      case True
      then show ?thesis using \<open>a < 0\<close> assms by (simp add: k_def f_def max_def)
    next
      case False
      then show ?thesis using \<open>a < 0\<close> n by (simp add: k_def f_def max_def min_def)
    qed
  next
    case False
    then have "\<not> b < 0" using assms by simp
    then show ?thesis using False assms by (simp add: k_def f_def min_def)
  qed
  then have "nat (f - k) \<le> nat (b - a)" by simp
  moreover have "length (js_slice xs a b) \<le> nat (f - k)"
    by (simp add: js_slice_def Let_def n_def k_def f_def)
  ultimately show ?thesis by simp
qed

section \<open>Deduplication in imageSearch, videoSearch and newsSearch\<close>

lemma news_dedup_fresh:
  "x \<in> set (news_dedup xs seen) \<Longrightarrow> truthy (url x) \<and> the (url x) \<notin> set seen"
proof (induction xs arbitrary: seen)
  case Nil
  then show ?case by simp
next
  case (Cons a xs)
  show ?case
  proof (cases "\<not> truthy (url a) \<or> the (url a) \<in> set seen")
    case True
    then show ?thesis using Cons by auto
  next
    case False
    then have "x = a \<or> x \<in> set (news_dedup xs (the (url a) # seen))"
      using Cons.prems by auto
    then show ?thesis
    proof
      assume "x = a"
      then show ?thesis using False by simp
    next
      assume "x \<in> set (news_dedup xs (the (url a) # seen))"
      from Cons.IH [OF this] show ?thesis by simp
    qed
  qed
qed

lemma distinct_news_dedup: "distinct (map url (news_dedup xs seen))"
proof (induction xs arbitrary: seen)
  case Nil
  then show ?case by simp
next
  case (Cons a xs)
  show ?case
  proof (cases "\<not> truthy (url a) \<or> the (url a) \<in> set seen")
    case True
    then show ?thesis using Cons.IH [of seen] by auto
  next
    case False
    have "url a \<notin> url ` set (news_dedup xs (the (url a) # seen))"
    proof
      assume "url a \<in> url ` set (news_dedup xs (the (url a) # seen))"
      then obtain x where x: "x \<in> set (news_dedup xs (the (url a) # seen))" "url x = url a"
        by auto
      from news_dedup_fresh [OF x(1)] x(2) show False by simp
    qed
    then show ?thesis using False Cons.IH [of "the (url a) # seen"] by simp
  qed
qed

lemma image_dedup_fresh:
  "x \<in> set (image_dedup xs seen) \<Longrightarrow> truthy (image_src x) \<and> the (image_src x) \<notin> set seen"
proof (induction xs arbitrary: seen)
  case Nil
  then show ?case by simp
next
  case (Cons a xs)
  show ?case
  proof (cases "\<not> truthy (image_src a) \<or> the (image_src a) \<in> set seen")
    case True
    then show ?thesis using Cons by auto
  next
    case False
    then have "x = a \<or> x \<in> set (image_dedup xs (the (image_src a) # seen))"
      using Cons.prems by auto
    then show ?thesis
    proof
      assume "x = a"
      then show ?thesis using False by simp
    next
      assume "x \<in> set (image_dedup xs (the (image_src a) # seen))"
      from Cons.IH [OF this] show ?thesis by simp
    qed
  qed
qed

lemma distinct_image_dedup: "distinct (map image_src (image_dedup xs seen))"
proof (induction xs arbitrary: seen)
  case Nil
  then show ?case by simp
next
  case (Cons a xs)
  show ?case
  proof (cases "\<not> truthy (image_src a) \<or> the (image_src a) \<in> set seen")
    case True
    then show ?thesis using Cons.IH [of seen] by auto
  next
    case False
    have "image_src a \<notin> image_src ` set (image_dedup xs (the (image_src a) # seen))"
    proof
      assume "image_src a \<in> image_src ` set (image_dedup xs (the (image_src a) # seen))"
      then obtain x where x: "x \<in> set (image_dedup xs (the (image_src a) # seen))"
        "image_src x = image_src a"
        by auto
      from image_dedup_fresh [OF x(1)] x(2) show False by simp
    qed
    then show ?thesis using False Cons.IH [of "the (image_src a) # seen"] by simp
  qed
qed

lemma video_dedup_fresh:
  "x \<in> set (video_dedup xs ids urls) \<Longrightarrow> url x \<notin> set urls"
proof (induction xs arbitrary: ids urls)
  case Nil
  then show ?case by simp
next
  case (Cons a xs)
  show ?case
  proof (cases "truthy (video_id a) \<and> the (video_id a) \<notin> set ids \<and> url a \<notin> set urls")
    case False
    then have "x \<in> set (video_dedup xs ids urls)"
      using Cons.prems by (auto split: if_splits)
    from Cons.IH [OF this] show ?thesis .
  next
    case True
    then have "x = a \<or> x \<in> set (video_dedup xs (the (video_id a) # ids) (url a # urls))"
      using Cons.prems by auto
    then show ?thesis
    proof
      assume "x = a"
      then show ?thesis using True by simp
    next
      assume "x \<in> set (video_dedup xs (the (video_id a) # ids) (url a # urls))"
      from Cons.IH [OF this] show ?thesis by simp
    qed
  qed
qed

lemma distinct_video_dedup: "distinct (map url (video_dedup xs ids urls))"
proof (induction xs arbitrary: ids urls)
  case Nil
  then show ?case by simp
next
  case (Cons a xs)
  show ?case
  proof (cases "truthy (video_id a) \<and> the (video_id a) \<notin> set ids \<and> url a \<notin> set urls")
    case False
    then show ?thesis using Cons.IH [of ids urls] by auto
  next
    case True
    have "url a \<notin> url ` set (video_dedup xs (the (video_id a) # ids) (url a # urls))"
    proof
      assume "url a \<in> url ` set (video_dedup xs (the (video_id a) # ids) (url a # urls))"
      then obtain x where x: "x \<in> set (video_dedup xs (the (video_id a) # ids) (url a # urls))"
        "url x = url a"
        by auto
      from video_dedup_fresh [OF x(1)] x(2) show False by simp
    qed
    then show ?thesis
      using True Cons.IH [of "the (video_id a) # ids" "url a # urls"] by simp
  qed
qed

lemma distinct_map_rank: "distinct (map f (rank xs)) = distinct (map f xs)"
  by (simp add: rank_def distinct_map)

lemma news_aggregate_distinct:
  assumes "news_aggregate level extractDomain rnd primary = Inr r"
  shows "distinct (map url r)"
  using assms
  by (auto simp: news_aggregate_def news_merge_def distinct_map_js_slice distinct_map_rank
        distinct_news_dedup split: promise.splits sum.splits if_splits)

lemma video_aggregate_distinct:
  assumes "video_aggregate rnd primary additional = Inr r"
  shows "distinct (map url r)"
  using assms
  by (auto simp: video_aggregate_def video_merge_def distinct_map_js_slice distinct_map_rank
        distinct_video_dedup split: promise.splits sum.splits)

lemma image_aggregate_distinct:
  assumes "image_aggregate rnd primary additional = Inr r"
  shows "distinct (map image_src r)"
  using assms
  by (auto simp: image_aggregate_def image_merge_def distinct_map_js_slice distinct_map_rank
        distinct_image_dedup split: promise.splits sum.splits)

section \<open>Cached payloads\<close>

lemma set_Map_set_subset: "set (Map_set k v m) \<subseteq> insert (k, v) (set m)"
  by (induction m) (auto split: if_splits)

lemma payloads_empty: "payloads P empty_cache"
  by (simp add: payloads_def empty_cache_def)

lemma payloads_cacheClear: "payloads P (cacheClear s)"
  by (simp add: payloads_def cacheClear_def)

lemma payloads_Map_set:
  assumes "\<forall>p \<in> set m. P (fst p) (entry_d (snd p))" "P k (entry_d e)"
  shows "\<forall>p \<in> set (Map_set k e m). P (fst p) (entry_d (snd p))"
proof
  fix p assume "p \<in> set (Map_set k e m)"
  then have "p = (k, e) \<or> p \<in> set m" using set_Map_set_subset [of k e m] by auto
  then show "P (fst p) (entry_d (snd p))" using assms by auto
qed

lemma cacheGet_hit_payload:
  assumes "payloads P s" "fst (cacheGet key now s) = Some d"
  shows "P key d"
proof (cases "Map_get (CACHE s) key")
  case None
  then show ?thesis using assms(2) by (simp add: cacheGet_def)
next
  case (Some e)
  then have "(key, e) \<in> set (CACHE s)" by (rule Map_get_Some_mem)
  then have "P key (entry_d e)" using assms(1) unfolding payloads_def by force
  moreover have "d = entry_d e"
    using assms(2) Some by (simp add: cacheGet_def Let_def split: if_splits)
  ultimately show ?thesis by simp
qed

lemma payloads_cacheGet:
  assumes "payloads P s"
  shows "payloads P (snd (cacheGet key now s))"
proof (cases "Map_get (CACHE s) key")
  case None
  then show ?thesis using assms by (simp add: cacheGet_def payloads_def)
next
  case (Some e)
  have all: "\<forall>p \<in> set (CACHE s). P (fst p) (entry_d (snd p))"
    using assms by (simp add: payloads_def)
  have "(key, e) \<in> set (CACHE s)" using Some by (rule Map_get_Some_mem)
  then have "P key (entry_d (e\<lparr>entry_t := now\<rparr>))" using all by force
  from payloads_Map_set [OF all this]
  have a: "\<forall>p \<in> set (Map_set key (e\<lparr>entry_t := now\<rparr>) (CACHE s)). P (fst p) (entry_d (snd p))" .
  have b: "\<forall>p \<in> set (Map_delete key (CACHE s)). P (fst p) (entry_d (snd p))"
    using all by (simp add: Map_delete_def)
  show ?thesis
    using Some a b by (simp add: cacheGet_def Let_def payloads_def)
qed

lemma set_evict_oldest: "set (evict_oldest c) \<subseteq> set c"
  by (simp only: evict_oldest_filter) auto

lemma payloads_cacheSet:
  assumes "payloads P s" "P key data"
  shows "payloads P (cacheSet key data ttl now s)"
proof -
  let ?e = "\<lparr>entry_d = data, entry_t = now,
             entry_ttl = (case ttl of None \<Rightarrow> TTL_medium | Some x \<Rightarrow> x)\<rparr>"
  let ?c = "if length (CACHE s) \<ge> MAX_CACHE_SIZE
            then sweep_expired now (evict_oldest (CACHE s)) else CACHE s"
  have "set ?c \<subseteq> set (CACHE s)"
    using set_evict_oldest [of "CACHE s"] by (auto simp: sweep_expired_def)
  then have all: "\<forall>p \<in> set ?c. P (fst p) (entry_d (snd p))"
    using assms(1) unfolding payloads_def by blast
  have "P key (entry_d ?e)" using assms(2) by simp
  from payloads_Map_set [OF all this]
  show ?thesis by (simp add: cacheSet_def Let_def payloads_def)
qed

lemma with_cache_payloads:
  assumes "payloads P s" "\<And>r. aggregation = Inr r \<Longrightarrow> P key r"
  shows "payloads P (snd (with_cache key aggregation now later s))
       \<and> (\<forall>r. fst (with_cache key aggregation now later s) = Inr r \<longrightarrow> P key r)"
proof -
  obtain c s1 where g: "cacheGet key now s = (c, s1)" by (cases "cacheGet key now s")
  have s1: "payloads P s1" using payloads_cacheGet [OF assms(1), of key now] g by simp
  show ?thesis
  proof (cases c)
    case (Some cached)
    have "P key cached" using cacheGet_hit_payload [OF assms(1), of key now cached] g Some by simp
    then show ?thesis using g Some s1 by (simp add: with_cache_def)
  next
    case None
    show ?thesis
    proof (cases aggregation)
      case (Inl e)
      then show ?thesis using g None s1 by (simp add: with_cache_def)
    next
      case (Inr r)
      have "P key r" using assms(2) Inr by simp
      then show ?thesis
        using g None Inr payloads_cacheSet [OF s1, of key r None later]
        by (simp add: with_cache_def)
    qed
  qed
qed

section \<open>Provider results in webSearch\<close>

lemma Promise_all_Resolved: "Promise_all (map Resolved xs) = Resolved xs"
  by (induction xs) simp_all

lemma settle_settled: "r \<noteq> Rejected Undefined \<Longrightarrow> settle m r = Resolved (settled m r)"
  by (auto simp: settle_def settled_def message_of_def split: promise.splits thrown.splits)

lemma settle_all_settled:
  assumes "\<forall>m \<in> set methods. primary (method_name m) \<noteq> Rejected Undefined"
  shows "settle_all methods primary
         = Resolved (map (\<lambda>m. settled m (primary (method_name m))) methods)"
proof -
  have "map (\<lambda>m. settle m (primary (method_name m))) methods
        = map Resolved (map (\<lambda>m. settled m (primary (method_name m))) methods)"
    using assms by (simp add: settle_settled)
  then show ?thesis by (simp only: settle_all_def Promise_all_Resolved)
qed

text \<open>The loop of \<open>web_collect\<close> in closed form.\<close>

lemma web_collect_closed:
  "web_collect level ps (allResults, errors) =
     (allResults @ concat (map (\<lambda>p. if truthy (pr_error p) then []
                                      else map (enrich level p) (pr_results p)) ps),
      errors @ concat (map (\<lambda>p. if truthy (pr_error p)
                                   then [(pr_name p, the (pr_error p))] else []) ps))"
  by (induction ps arbitrary: allResults errors) simp_all

lemma settled_contribution:
  "(if truthy (pr_error (settled m r)) then []
    else map (enrich level (settled m r)) (pr_results (settled m r)))
   = contribution level m r"
  by (auto simp: settled_def contribution_def truthy_def split: promise.splits thrown.splits)

lemma web_collect_settled_fst:
  "fst (web_collect level (map (\<lambda>m. settled m (primary (method_name m))) methods) ([], []))
   = concat (map (\<lambda>m. contribution level m (primary (method_name m))) methods)"
  by (simp add: web_collect_closed comp_def settled_contribution)

lemma settled_error_entry:
  "(if truthy (pr_error (settled m r)) then [(pr_name (settled m r), the (pr_error (settled m r)))]
    else [])
   = (case r of Resolved res \<Rightarrow> []
      | Rejected x \<Rightarrow> (case x of Undefined \<Rightarrow> []
                        | Error msg \<Rightarrow> if msg = [] then [] else [(method_name m, msg)]))"
  by (auto simp: settled_def truthy_def split: promise.splits thrown.splits)

lemma web_collect_settled_snd:
  "snd (web_collect level (map (\<lambda>m. settled m (primary (method_name m))) searchMethods) ([], []))
   = failed_providers primary"
  by (simp add: web_collect_closed comp_def settled_error_entry failed_providers_def)

lemma contribution_silence:
  "contribution level m (silence primary (method_name m))
   = contribution level m (primary (method_name m))"
  by (auto simp: contribution_def silence_def settled_def enrich_def or_empty_def
           split: promise.splits thrown.splits)

lemma silence_undefined:
  "silence primary n = Rejected Undefined \<longleftrightarrow> primary n = Rejected Undefined"
  by (auto simp: silence_def split: promise.splits thrown.splits)

lemma web_aggregate_no_undefined:
  assumes "\<forall>m \<in> set searchMethods. primary (method_name m) \<noteq> Rejected Undefined"
  shows "web_aggregate level page primary additional =
           Inr \<lparr>pagedResults =
                  web_page page (web_unique (web_backfill level additional
                    (concat (map (\<lambda>m. contribution level m (primary (method_name m)))
                               searchMethods)))),
                errors_logged = failed_providers primary\<rparr>"
  by (simp add: web_aggregate_def settle_all_settled [OF assms] web_merge_def
        web_allResults_def web_collect_settled_fst web_collect_settled_snd)

lemma web_append_additional_empty:
  "\<forall>c \<in> set calls. snd c = [] \<Longrightarrow> web_append_additional level calls allResults = allResults"
  by (induction calls arbitrary: allResults) auto

lemma web_backfill_all_rejected:
  assumes "\<forall>n p. \<exists>x. additional n p = Rejected x"
  shows "web_backfill level additional [] = []"
proof -
  have "settle_additional (additional n p) = []" for n p
  proof -
    obtain x where "additional n p = Rejected x" using assms by blast
    then show ?thesis by (simp add: settle_additional_def)
  qed
  then show ?thesis
    by (simp add: web_backfill_def RESULTS_PER_PAGE_def web_append_additional_empty)
qed

lemma web_unique_Nil: "web_unique [] = []"
  by (simp add: web_unique_def Map_values_def)

lemma web_page_Nil: "web_page page [] = []"
  by (simp add: web_page_def js_slice_def Let_def)

section \<open>The concrete searches, evaluated\<close>

lemmas eval_defs =
  webSearch_def with_cache_def cacheGet_def cacheSet_def empty_cache_def MAX_CACHE_SIZE_def
  web_key_def getSafeSearchParam_def
  web_aggregate_def settle_all_def searchMethods_def settle_def message_of_def
  web_merge_def web_allResults_def truthy_def enrich_def num_or_def web_backfill_def
  RESULTS_PER_PAGE_def bestProviders_def settle_additional_def or_empty_def
  web_unique_def Map_values_def ws0_def web_page_def js_slice_def ttl_or_medium_def
  TTL_medium_def

lemma web_three_eval:
  "web_aggregate ''moderate'' 1 web_three no_pages
   = Inr \<lparr>pagedResults = web_three_page, errors_logged = [(''Brave'', ''boom'')]\<rparr>"
  by (simp add: eval_defs web_three_def no_pages_def web_item_def web_three_page_def)

lemma all_down_eval:
  "web_aggregate ''moderate'' 1 all_down no_pages
   = Inr \<lparr>pagedResults = [], errors_logged = all_down_errors\<rparr>"
  by (simp add: eval_defs all_down_def no_pages_def all_down_errors_def)

lemma all_silent_eval:
  "web_aggregate ''moderate'' 1 all_silent no_pages
   = Inr \<lparr>pagedResults = [], errors_logged = []\<rparr>"
  by (simp add: eval_defs all_silent_def no_pages_def)

lemma webSearch_miss_eval:
  "fst (webSearch ''q'' 1 None primary no_pages 0 1 empty_cache)
   = map_sum (\<lambda>e. e) pagedResults (web_aggregate ''moderate'' 1 primary no_pages)"
  by (simp add: webSearch_def with_cache_def cacheGet_def empty_cache_def getSafeSearchParam_def
        split: sum.splits)

lemma string_of_nat_Suc_0: "string_of_nat (Suc 0) = ''1''"
  by (subst string_of_nat.simps) (simp add: digit_char_def)

lemma web_key_q: "web_key ''q'' 1 ''moderate'' = ''web:q:1:moderate''"
  by (simp add: web_key_def string_of_int_def string_of_nat_Suc_0)

lemma web_three_collected:
  "fst (web_collect ''moderate'' web_three_results ([], []))
   = [(web_item ''a'' ''http://x'' None)
        \<lparr>source := Some ''DuckDuckGo'', safeSearch := Some ''moderate'', weightScore := Some 3\<rparr>,
      (web_item ''b'' ''http://y'' None)
        \<lparr>source := Some ''DuckDuckGo'', safeSearch := Some ''moderate'', weightScore := Some 3\<rparr>,
      (web_item ''c'' ''http://x'' (Some 2))
        \<lparr>source := Some ''SearXNG'', safeSearch := Some ''moderate'', weightScore := Some 4\<rparr>,
      (web_item ''d'' ''http://z'' (Some (1 / 2)))
        \<lparr>source := Some ''SearXNG'', safeSearch := Some ''moderate'', weightScore := Some 1\<rparr>]"
  by (simp add: web_three_results_def searchMethods_def settled_def web_three_def or_empty_def
        truthy_def enrich_def num_or_def web_item_def)

section \<open>Caps and cached payloads of the four searches\<close>

lemma length_web_page: "length (web_page page xs) \<le> RESULTS_PER_PAGE"
proof -
  have "length (js_slice xs ((page - 1) * int RESULTS_PER_PAGE)
          ((page - 1) * int RESULTS_PER_PAGE + int RESULTS_PER_PAGE))
        \<le> nat ((page - 1) * int RESULTS_PER_PAGE + int RESULTS_PER_PAGE
                - (page - 1) * int RESULTS_PER_PAGE)"
    by (rule length_js_slice) simp
  then show ?thesis by (simp add: web_page_def Let_def)
qed

lemma length_slice_150: "length (js_slice xs 0 150) \<le> 150"
  using length_js_slice [of 0 150 xs] by simp

lemma length_slice_50: "length (js_slice xs 0 50) \<le> 50"
  using length_js_slice [of 0 50 xs] by simp

lemma web_merge_ok:
  "length (pagedResults (web_merge level page additional prs)) \<le> RESULTS_PER_PAGE
   \<and> distinct (map url (pagedResults (web_merge level page additional prs)))"
  by (simp add: web_merge_def web_page_def Let_def length_web_page [unfolded web_page_def Let_def]
        distinct_map_js_slice distinct_url_web_unique)

lemma web_aggregate_ok:
  assumes "map_sum (\<lambda>e. e) pagedResults (web_aggregate level page primary additional) = Inr r"
  shows "length r \<le> RESULTS_PER_PAGE \<and> distinct (map url r)"
proof (cases "settle_all searchMethods primary")
  case (Rejected e)
  then show ?thesis using assms by (simp add: web_aggregate_def)
next
  case (Resolved prs)
  then have "r = pagedResults (web_merge level page additional prs)"
    using assms by (simp add: web_aggregate_def)
  then show ?thesis using web_merge_ok by simp
qed

lemma image_aggregate_ok:
  assumes "image_aggregate rnd primary additional = Inr r"
  shows "length r \<le> 150"
  using assms length_slice_150
  by (auto simp: image_aggregate_def image_merge_def split: promise.splits sum.splits)

lemma video_aggregate_ok:
  assumes "video_aggregate rnd primary additional = Inr r"
  shows "length r \<le> 150"
  using assms length_slice_150
  by (auto simp: video_aggregate_def video_merge_def split: promise.splits sum.splits)

lemma news_aggregate_ok:
  assumes "news_aggregate level extractDomain rnd primary = Inr r"
  shows "length r \<le> 50"
  using assms length_slice_50
  by (auto simp: news_aggregate_def news_merge_def split: promise.splits sum.splits if_splits)

lemma payload_ok_web:
  "length r \<le> RESULTS_PER_PAGE \<Longrightarrow> distinct (map url r) \<Longrightarrow> payload_ok (web_key q page level) r"
  by (simp add: payload_ok_def web_key_def)

lemma payload_ok_img:
  "length r \<le> 150 \<Longrightarrow> distinct (map image_src r) \<Longrightarrow> payload_ok (''img:'' @ rest) r"
  by (simp add: payload_ok_def)

lemma payload_ok_vid:
  "length r \<le> 150 \<Longrightarrow> distinct (map url r) \<Longrightarrow> payload_ok (''vid:'' @ rest) r"
  by (simp add: payload_ok_def)

lemma payload_ok_news:
  "length r \<le> 50 \<Longrightarrow> distinct (map url r) \<Longrightarrow> payload_ok (''news:'' @ rest) r"
  by (simp add: payload_ok_def)

lemma payload_ok_webD:
  "payload_ok (web_key q page level) r \<Longrightarrow> length r \<le> RESULTS_PER_PAGE \<and> distinct (map url r)"
  by (simp add: payload_ok_def web_key_def)

lemma payload_ok_imgD: "payload_ok (''img:'' @ rest) r \<Longrightarrow> length r \<le> 150"
  by (simp add: payload_ok_def)

lemma payload_ok_vidD: "payload_ok (''vid:'' @ rest) r \<Longrightarrow> length r \<le> 150"
  by (simp add: payload_ok_def)

lemma payload_ok_newsD: "payload_ok (''news:'' @ rest) r \<Longrightarrow> length r \<le> 50"
  by (simp add: payload_ok_def)

lemma payload_ok_img_distinct: "payload_ok (''img:'' @ rest) r \<Longrightarrow> distinct (map image_src r)"
  by (simp add: payload_ok_def)

lemma payload_ok_vid_distinct: "payload_ok (''vid:'' @ rest) r \<Longrightarrow> distinct (map url r)"
  by (simp add: payload_ok_def)

lemma payload_ok_news_distinct: "payload_ok (''news:'' @ rest) r \<Longrightarrow> distinct (map url r)"
  by (simp add: payload_ok_def)

lemma webSearch_payloads:
  assumes "payloads payload_ok s"
  shows "payloads payload_ok (snd (webSearch query page safe primary additional now later s))
       \<and> (\<forall>r. fst (webSearch query page safe primary additional now later s) = Inr r
              \<longrightarrow> payload_ok (web_key query page (getSafeSearchParam safe)) r)"
  unfolding webSearch_def
  by (rule with_cache_payloads [OF assms]) (auto dest: web_aggregate_ok intro: payload_ok_web)

lemma imageSearch_payloads:
  assumes "payloads payload_ok s"
  shows "payloads payload_ok (snd (imageSearch query safe rnd primary additional now later s))
       \<and> (\<forall>r. fst (imageSearch query safe rnd primary additional now later s) = Inr r
              \<longrightarrow> payload_ok (''img:'' @ query @ '':'' @ getSafeSearchParam safe) r)"
  unfolding imageSearch_def
proof (rule with_cache_payloads [OF assms])
  fix r assume r: "image_aggregate rnd primary additional = Inr r"
  show "payload_ok (''img:'' @ query @ '':'' @ getSafeSearchParam safe) r"
    by (rule payload_ok_img [OF image_aggregate_ok [OF r] image_aggregate_distinct [OF r]])
qed

lemma videoSearch_payloads:
  assumes "payloads payload_ok s"
  shows "payloads payload_ok (snd (videoSearch query safe rnd primary additional now later s))
       \<and> (\<forall>r. fst (videoSearch query safe rnd primary additional now later s) = Inr r
              \<longrightarrow> payload_ok (''vid:'' @ query @ '':'' @ getSafeSearchParam safe) r)"
  unfolding videoSearch_def
proof (rule with_cache_payloads [OF assms])
  fix r assume r: "video_aggregate rnd primary additional = Inr r"
  show "payload_ok (''vid:'' @ query @ '':'' @ getSafeSearchParam safe) r"
    by (rule payload_ok_vid [OF video_aggregate_ok [OF r] video_aggregate_distinct [OF r]])
qed

lemma newsSearch_payloads:
  assumes "payloads payload_ok s"
  shows "payloads payload_ok (snd (newsSearch query safe extractDomain rnd primary now later s))
       \<and> (\<forall>r. fst (newsSearch query safe extractDomain rnd primary now later s) = Inr r
              \<longrightarrow> payload_ok (''news:'' @ query @ '':'' @ getSafeSearchParam safe) r)"
  unfolding newsSearch_def
proof (rule with_cache_payloads [OF assms])
  fix r assume r: "news_aggregate (getSafeSearchParam safe) extractDomain rnd primary = Inr r"
  show "payload_ok (''news:'' @ query @ '':'' @ getSafeSearchParam safe) r"
    by (rule payload_ok_news [OF news_aggregate_ok [OF r] news_aggregate_distinct [OF r]])
qed

lemma reachable_payloads: "reachable s \<Longrightarrow> payloads payload_ok s"
proof (induction rule: reachable.induct)
  case start
  then show ?case by (rule payloads_empty)
next
  case (web s query page safe primary additional now later)
  then show ?case using webSearch_payloads by blast
next
  case (image s query safe rnd primary additional' now later)
  then show ?case using imageSearch_payloads by blast
next
  case (video s query safe rnd primary additional' now later)
  then show ?case using videoSearch_payloads by blast
next
  case (news s query safe extractDomain rnd primary now later)
  then show ?case using newsSearch_payloads by blast
next
  case (clear s)
  then show ?case by (simp add: payloads_cacheClear)
qed

text \<open>
  C10.  In every state of the cache that the searches can produce, and whatever the
  providers do, a search that returns a list returns at most 100 results (web), 150
  (images, videos) or 50 (news), from the cache or from the aggregation.
\<close>

theorem search_result_caps:
  "reachable s \<Longrightarrow>
     (\<forall>items. fst (webSearch query page safe primary additional now later s) = Inr items
        \<longrightarrow> length items \<le> RESULTS_PER_PAGE \<and> RESULTS_PER_PAGE = 100)
   \<and> (\<forall>items. fst (imageSearch query safe rnd primary extra now later s) = Inr items
        \<longrightarrow> length items \<le> 150)
   \<and> (\<forall>items. fst (videoSearch query safe rnd primary extra now later s) = Inr items
        \<longrightarrow> length items \<le> 150)
   \<and> (\<forall>items. fst (newsSearch query safe extractDomain rnd primary now later s) = Inr items
        \<longrightarrow> length items \<le> 50)"
proof -
  assume "reachable s"
  then have p: "payloads payload_ok s" by (rule reachable_payloads)
  show ?thesis
    using webSearch_payloads [OF p] imageSearch_payloads [OF p] videoSearch_payloads [OF p]
      newsSearch_payloads [OF p]
    by (meson payload_ok_webD payload_ok_imgD payload_ok_vidD payload_ok_newsD
          RESULTS_PER_PAGE_def)
qed

text \<open>
  A first web search stores its page; a second one for the same query, at a time when every
  provider is down, returns the stored page.  Searches that find nothing return the empty
  list.
\<close>

theorem search_result_caps_witness:
  "fst (webSearch ''q'' 1 None web_three no_pages 0 1 empty_cache) = Inr web_three_page
   \<and> fst (webSearch ''q'' 1 None all_down no_pages 5 6
            (snd (webSearch ''q'' 1 None web_three no_pages 0 1 empty_cache)))
       = Inr web_three_page
   \<and> length web_three_page = 3
   \<and> fst (imageSearch ''q'' None rnd_low_high all_silent no_more 0 1 empty_cache) = Inr []
   \<and> fst (videoSearch ''q'' None rnd_low_high all_silent no_more 0 1 empty_cache) = Inr []
   \<and> fst (newsSearch ''q'' None same_domain rnd_low_high all_silent 0 1 empty_cache) = Inr []"
proof -
  let ?s = "snd (webSearch ''q'' 1 None web_three no_pages 0 1 empty_cache)"
  have r0: "reachable empty_cache" by (rule reachable.start)
  have r1: "reachable ?s" by (rule reachable.web [OF r0])
  have w1: "fst (webSearch ''q'' 1 None web_three no_pages 0 1 empty_cache) = Inr web_three_page"
    by (simp add: webSearch_miss_eval web_three_eval)
  have s: "?s = \<lparr>CACHE = [(''web:q:1:moderate'',
                      \<lparr>entry_d = web_three_page, entry_t = 1, entry_ttl = TTL_medium\<rparr>)],
                 cacheHits = 0, cacheMisses = 1\<rparr>"
    by (simp add: webSearch_def with_cache_def cacheGet_def cacheSet_def empty_cache_def
          getSafeSearchParam_def web_three_eval web_key_q MAX_CACHE_SIZE_def)
  have w2: "fst (webSearch ''q'' 1 None all_down no_pages 5 6 ?s) = Inr web_three_page"
    unfolding s
    by (simp add: webSearch_def with_cache_def cacheGet_def getSafeSearchParam_def web_key_q
          ttl_or_medium_def TTL_medium_def)
  have l: "length web_three_page = 3" by (simp add: web_three_page_def)
  have i: "fst (imageSearch ''q'' None rnd_low_high all_silent no_more 0 1 empty_cache) = Inr []"
    by (simp add: imageSearch_def with_cache_def cacheGet_def cacheSet_def empty_cache_def
          image_aggregate_def settle_all_def imageProviders_def settle_def all_silent_def
          or_empty_def image_merge_def more_items_def no_more_def truthy_def rank_def
          js_slice_def)
  have v: "fst (videoSearch ''q'' None rnd_low_high all_silent no_more 0 1 empty_cache) = Inr []"
    by (simp add: videoSearch_def with_cache_def cacheGet_def cacheSet_def empty_cache_def
          video_aggregate_def settle_all_def videoProviders_def settle_def all_silent_def
          or_empty_def video_merge_def more_items_def no_more_def truthy_def rank_def
          js_slice_def)
  have n: "fst (newsSearch ''q'' None same_domain rnd_low_high all_silent 0 1 empty_cache) = Inr []"
    by (simp add: newsSearch_def with_cache_def cacheGet_def cacheSet_def empty_cache_def
          news_aggregate_def settle_all_def newsProviders_def settle_def all_silent_def
          or_empty_def news_merge_def truthy_def rank_def js_slice_def getSafeSearchParam_def)
  show ?thesis
    using search_result_caps [OF r0, where query = "''q''" and page = 1 and safe = None
            and primary = web_three and additional = no_pages and now = 0 and later = 1]
      search_result_caps [OF r1, where query = "''q''" and page = 1 and safe = None
            and primary = all_down and additional = no_pages and now = 5 and later = 6]
      w1 w2 l i v n
    by simp
qed

section \<open>Partial failure in webSearch\<close>

text \<open>
  The slip behind C4 reaches the aggregation: Startpage has no \<^verbatim>\<open>catch\<close> of its own, so when
  its fetch ends in \<^verbatim>\<open>throw undefined\<close>, the handler that reads \<^verbatim>\<open>error.message\<close> throws and
  \<^verbatim>\<open>webSearch\<close> rejects, whatever the other providers returned.
\<close>

lemma webSearch_rejects_on_undefined:
  "fst (webSearch ''q'' 1 None startpage_5xx no_pages 0 1 empty_cache)
   = Inl (Error TypeError_message)"
  by (simp add: webSearch_miss_eval web_aggregate_def settle_all_def searchMethods_def
        settle_def message_of_def startpage_5xx_def web_three_def)

text \<open>
  C2, as the code has it, for \<^verbatim>\<open>webSearch\<close>.  When no provider call rejects with \<^verbatim>\<open>undefined\<close>,
  \<^verbatim>\<open>webSearch\<close> does not throw; \<open>errors\<close> holds one entry for each provider that failed (with a
  message), in registration order; the page is made from the results of the providers that
  succeeded, each enriched, in registration order, exactly as if every failed provider had
  returned no results; and it is empty when every call, additional ones included, rejects.
  The caller receives the page alone.
\<close>

theorem web_partial_failure:
  "\<forall>m \<in> set searchMethods. primary (method_name m) \<noteq> Rejected Undefined \<Longrightarrow>
   (\<exists>a. web_aggregate level page primary additional = Inr a
      \<and> errors_logged a = failed_providers primary
      \<and> pagedResults a =
          web_page page (web_unique (web_backfill level additional
            (concat (map (\<lambda>m. contribution level m (primary (method_name m))) searchMethods))))
      \<and> web_aggregate level page (silence primary) additional = Inr (a\<lparr>errors_logged := []\<rparr>)
      \<and> ((\<forall>m \<in> set searchMethods. \<exists>x. primary (method_name m) = Rejected x)
           \<and> (\<forall>n p. \<exists>x. additional n p = Rejected x) \<longrightarrow> pagedResults a = []))
   \<and> (\<exists>r. fst (webSearch query page safe primary additional now later s) = Inr r)"
proof -
  assume nu: "\<forall>m \<in> set searchMethods. primary (method_name m) \<noteq> Rejected Undefined"
  let ?a = "\<lparr>pagedResults =
               web_page page (web_unique (web_backfill level additional
                 (concat (map (\<lambda>m. contribution level m (primary (method_name m)))
                            searchMethods)))),
             errors_logged = failed_providers primary\<rparr>"
  have a: "web_aggregate level page primary additional = Inr ?a"
    by (rule web_aggregate_no_undefined [OF nu])
  have nu': "\<forall>m \<in> set searchMethods. silence primary (method_name m) \<noteq> Rejected Undefined"
    using nu by (simp add: silence_undefined)
  have fs: "failed_providers (silence primary) = []"
    using nu by (auto simp: failed_providers_def silence_def split: promise.splits thrown.splits)
  have b: "web_aggregate level page (silence primary) additional = Inr (?a\<lparr>errors_logged := []\<rparr>)"
    by (simp add: web_aggregate_no_undefined [OF nu'] contribution_silence fs)
  have c: "pagedResults ?a = []"
    if down: "\<forall>m \<in> set searchMethods. \<exists>x. primary (method_name m) = Rejected x"
      and pages: "\<forall>n p. \<exists>x. additional n p = Rejected x"
  proof -
    have "contribution level m (primary (method_name m)) = []" if m: "m \<in> set searchMethods" for m
    proof -
      from bspec [OF down m] obtain x where "primary (method_name m) = Rejected x" ..
      then show ?thesis by (simp add: contribution_def)
    qed
    then have e: "concat (map (\<lambda>m. contribution level m (primary (method_name m))) searchMethods) = []"
      by simp
    show ?thesis
      by (simp only: e aggregate.simps web_backfill_all_rejected [OF pages] web_unique_Nil
            web_page_Nil)
  qed
  have d: "\<exists>r. fst (webSearch query page safe primary additional now later s) = Inr r"
  proof -
    obtain a' where "web_aggregate (getSafeSearchParam safe) page primary additional = Inr a'"
      using web_aggregate_no_undefined [OF nu] by blast
    then show ?thesis
      by (cases "cacheGet (web_key query page (getSafeSearchParam safe)) now s";
          cases "fst (cacheGet (web_key query page (getSafeSearchParam safe)) now s)")
         (simp_all add: webSearch_def with_cache_def)
  qed
  show ?thesis
  proof (intro conjI)
    show "\<exists>a. web_aggregate level page primary additional = Inr a
      \<and> errors_logged a = failed_providers primary
      \<and> pagedResults a =
          web_page page (web_unique (web_backfill level additional
            (concat (map (\<lambda>m. contribution level m (primary (method_name m))) searchMethods))))
      \<and> web_aggregate level page (silence primary) additional = Inr (a\<lparr>errors_logged := []\<rparr>)
      \<and> ((\<forall>m \<in> set searchMethods. \<exists>x. primary (method_name m) = Rejected x)
           \<and> (\<forall>n p. \<exists>x. additional n p = Rejected x) \<longrightarrow> pagedResults a = [])"
    proof (intro exI [of _ ?a] conjI impI)
      show "web_aggregate level page primary additional = Inr ?a" by (rule a)
      show "errors_logged ?a = failed_providers primary" by simp
      show "pagedResults ?a =
          web_page page (web_unique (web_backfill level additional
            (concat (map (\<lambda>m. contribution level m (primary (method_name m))) searchMethods))))"
        by simp
      show "web_aggregate level page (silence primary) additional = Inr (?a\<lparr>errors_logged := []\<rparr>)"
        by (rule b)
      show "pagedResults ?a = []"
        if "(\<forall>m \<in> set searchMethods. \<exists>x. primary (method_name m) = Rejected x)
            \<and> (\<forall>n p. \<exists>x. additional n p = Rejected x)"
        using that c by blast
    qed
    show "\<exists>r. fst (webSearch query page safe primary additional now later s) = Inr r"
      by (rule d)
  qed
qed

text \<open>
  With Brave down, the page holds the results of DuckDuckGo and SearXNG and \<open>errors\<close> the
  one entry for Brave; with every call down, the page is empty.
\<close>

theorem web_partial_failure_witness:
  "web_three ''Brave'' = Rejected (Error ''boom'')
   \<and> web_aggregate ''moderate'' 1 web_three no_pages
       = Inr \<lparr>pagedResults = web_three_page, errors_logged = [(''Brave'', ''boom'')]\<rparr>
   \<and> web_aggregate ''moderate'' 1 (silence web_three) no_pages
       = Inr \<lparr>pagedResults = web_three_page, errors_logged = []\<rparr>
   \<and> web_aggregate ''moderate'' 1 all_down no_pages
       = Inr \<lparr>pagedResults = [], errors_logged = all_down_errors\<rparr>
   \<and> fst (webSearch ''q'' 1 None web_three no_pages 0 1 empty_cache) = Inr web_three_page"
proof -
  have nu: "\<forall>m \<in> set searchMethods. web_three (method_name m) \<noteq> Rejected Undefined"
    by (simp add: searchMethods_def web_three_def)
  have nd: "\<forall>m \<in> set searchMethods. all_down (method_name m) \<noteq> Rejected Undefined"
    by (simp add: all_down_def)
  have b: "web_three ''Brave'' = Rejected (Error ''boom'')" by (simp add: web_three_def)
  show ?thesis
    using web_partial_failure [OF nu, of "''moderate''" 1 no_pages "''q''" None 0 1 empty_cache]
      web_partial_failure [OF nd, of "''moderate''" 1 no_pages "''q''" None 0 1 empty_cache]
      b
    by (simp add: web_three_eval all_down_eval webSearch_miss_eval)
qed

text \<open>
  C2 as stated fails in what the caller receives: with every provider down and with every
  provider answering with no results, \<^verbatim>\<open>webSearch\<close> returns the same value, the empty array;
  the seven errors of the first run are in the local array \<open>errors\<close> only.
\<close>

theorem web_errors_not_returned_counterexample:
  "fst (webSearch ''q'' 1 None all_down no_pages 0 1 empty_cache) = Inr []
   \<and> fst (webSearch ''q'' 1 None all_silent no_pages 0 1 empty_cache) = Inr []
   \<and> web_aggregate ''moderate'' 1 all_down no_pages
       = Inr \<lparr>pagedResults = [], errors_logged = all_down_errors\<rparr>
   \<and> web_aggregate ''moderate'' 1 all_silent no_pages
       = Inr \<lparr>pagedResults = [], errors_logged = []\<rparr>
   \<and> length all_down_errors = 7"
  by (simp add: webSearch_miss_eval all_down_eval all_silent_eval all_down_errors_def)

section \<open>Weighted scores\<close>

lemma web_collect_member:
  assumes "r \<in> set (fst (web_collect level prs ([], [])))"
  shows "\<exists>p \<in> set prs. \<exists>r0 \<in> set (pr_results p). \<not> truthy (pr_error p) \<and> r = enrich level p r0"
  using assms by (auto simp: web_collect_closed split: if_splits)

lemma spec_formula_iff:
  assumes "0 < w"
  shows "w * num_or sc 1 = weightScore_spec w sc
         \<longleftrightarrow> sc = None \<or> sc = Some 0 \<or> (\<exists>x. sc = Some x \<and> 1 \<le> x)"
proof (cases sc)
  case None
  then show ?thesis by (simp add: num_or_def weightScore_spec_def)
next
  case (Some x)
  show ?thesis
  proof (cases "x = 0")
    case True
    then show ?thesis using Some by (simp add: num_or_def weightScore_spec_def)
  next
    case False
    have "w * x = w * max x 1 \<longleftrightarrow> x = max x 1" using assms by simp
    also have "\<dots> \<longleftrightarrow> 1 \<le> x" by (auto simp: max_def)
    finally show ?thesis using Some False by (simp add: num_or_def weightScore_spec_def)
  qed
qed

text \<open>
  C5, as the code has it.  Every item that the loop over the provider results puts into
  \<open>allResults\<close> comes from a provider that succeeded and carries
  \<open>weightScore = (weight || 1) * (score || 1)\<close>: an absent score and a score of 0 count as
  1, any other score counts as it is.  For a positive weight this is the formula of the
  specification, \<open>providerWeight * max(rawScore, 1)\<close>, exactly when the score is absent,
  0, or at least 1.
\<close>

theorem weightScore_of_collected:
  "r \<in> set (fst (web_collect level providerResults ([], []))) \<Longrightarrow>
   \<exists>p \<in> set providerResults. \<exists>r0 \<in> set (pr_results p).
     r = enrich level p r0
     \<and> weightScore r = Some (num_or (Some (pr_weight p)) 1 * num_or (score r0) 1)
     \<and> (0 < pr_weight p \<longrightarrow>
          weightScore r = Some (pr_weight p * num_or (score r0) 1)
          \<and> (weightScore r = Some (weightScore_spec (pr_weight p) (score r0))
               \<longleftrightarrow> score r0 = None \<or> score r0 = Some 0 \<or> (\<exists>x. score r0 = Some x \<and> 1 \<le> x)))"
proof -
  assume "r \<in> set (fst (web_collect level providerResults ([], [])))"
  then obtain p r0 where p: "p \<in> set providerResults" "r0 \<in> set (pr_results p)"
      "r = enrich level p r0"
    using web_collect_member by blast
  have ws: "weightScore r = Some (num_or (Some (pr_weight p)) 1 * num_or (score r0) 1)"
    by (simp add: p(3) enrich_def)
  have pos: "weightScore r = Some (pr_weight p * num_or (score r0) 1)
          \<and> (weightScore r = Some (weightScore_spec (pr_weight p) (score r0))
               \<longleftrightarrow> score r0 = None \<or> score r0 = Some 0 \<or> (\<exists>x. score r0 = Some x \<and> 1 \<le> x))"
    if w: "0 < pr_weight p"
  proof -
    have "num_or (Some (pr_weight p)) 1 = pr_weight p" using w by (simp add: num_or_def)
    then have e: "weightScore r = Some (pr_weight p * num_or (score r0) 1)" using ws by simp
    show ?thesis using e spec_formula_iff [OF w, of "score r0"] by simp
  qed
  show ?thesis
    using p(1,2,3) ws pos by blast
qed

text \<open>
  The result of SearXNG (weight 2) with a score of 2 gets 4, as the formula of the
  specification has it.
\<close>

theorem weightScore_of_collected_witness:
  "(web_item ''c'' ''http://x'' (Some 2))
      \<lparr>source := Some ''SearXNG'', safeSearch := Some ''moderate'', weightScore := Some 4\<rparr>
     \<in> set (fst (web_collect ''moderate'' web_three_results ([], [])))
   \<and> weightScore_spec 2 (Some 2) = 4"
proof -
  let ?c = "(web_item ''c'' ''http://x'' (Some 2))
      \<lparr>source := Some ''SearXNG'', safeSearch := Some ''moderate'', weightScore := Some 4\<rparr>"
  have m: "?c \<in> set (fst (web_collect ''moderate'' web_three_results ([], [])))"
    by (simp add: web_three_collected)
  have s: "weightScore_spec 2 (Some 2) = 4" by (simp add: weightScore_spec_def)
  show ?thesis
    using weightScore_of_collected [OF m] m s by simp
qed

text \<open>
  C5 as stated fails on a score between 0 and 1: the result of SearXNG (weight 2) with a
  score of 1/2 gets the \<open>weightScore\<close> 1, where the formula of the specification gives 2;
  the \<open>weightScore\<close> is below the weight of the provider.
\<close>

theorem weightScore_below_weight_counterexample:
  "web_aggregate ''moderate'' 1 searx_half no_pages
     = Inr \<lparr>pagedResults =
              [(web_item ''d'' ''http://z'' (Some (1 / 2)))
                 \<lparr>source := Some ''SearXNG'', safeSearch := Some ''moderate'',
                  weightScore := Some 1\<rparr>],
            errors_logged = []\<rparr>
   \<and> weightScore_spec 2 (Some (1 / 2)) = 2
   \<and> (1::real) < 2"
  by (simp add: eval_defs searx_half_def no_pages_def web_item_def weightScore_spec_def)

section \<open>Which occurrence of a url is kept\<close>

text \<open>
  C1, as the code has it.  The page of \<^verbatim>\<open>webSearch\<close> has no url twice; each of its results
  has a url, is one of the collected results, has the highest \<open>weightScore || 0\<close> among the
  collected results with its url and is the first of those with this url and this
  \<open>weightScore || 0\<close>; every url among the collected results is that of one deduplicated
  result.  What \<^verbatim>\<open>webSearch\<close>, \<^verbatim>\<open>newsSearch\<close> and \<^verbatim>\<open>videoSearch\<close> return, from the aggregation
  or from the cache, has no url twice, and what \<^verbatim>\<open>imageSearch\<close> returns has no image twice.
\<close>

theorem web_dedup_keeps_highest:
  "distinct (map url (pagedResults (web_merge level page additional providerResults)))
   \<and> (\<forall>r \<in> set (pagedResults (web_merge level page additional providerResults)).
        truthy (url r) \<and> r \<in> set (web_allResults level additional providerResults)
        \<and> (\<forall>x \<in> set (web_allResults level additional providerResults).
              url x = url r \<longrightarrow> ws0 x \<le> ws0 r)
        \<and> find (\<lambda>x. url x = url r \<and> ws0 x = ws0 r)
              (web_allResults level additional providerResults) = Some r)
   \<and> (\<forall>x \<in> set (web_allResults level additional providerResults).
        truthy (url x) \<longrightarrow>
          (\<exists>r \<in> set (web_unique (web_allResults level additional providerResults)).
             url r = url x))
   \<and> (reachable s \<longrightarrow>
        (\<forall>items. fst (webSearch query page safe primary additional now later s) = Inr items
           \<longrightarrow> distinct (map url items))
        \<and> (\<forall>items. fst (newsSearch query safe extractDomain rnd primary now later s) = Inr items
           \<longrightarrow> distinct (map url items))
        \<and> (\<forall>items. fst (videoSearch query safe rnd primary extra now later s) = Inr items
           \<longrightarrow> distinct (map url items))
        \<and> (\<forall>items. fst (imageSearch query safe rnd primary extra now later s) = Inr items
           \<longrightarrow> distinct (map image_src items)))"
proof (intro conjI)
  let ?all = "web_allResults level additional providerResults"
  show "distinct (map url (pagedResults (web_merge level page additional providerResults)))"
    using web_merge_ok by blast
  show "\<forall>r \<in> set (pagedResults (web_merge level page additional providerResults)).
        truthy (url r) \<and> r \<in> set ?all
        \<and> (\<forall>x \<in> set ?all. url x = url r \<longrightarrow> ws0 x \<le> ws0 r)
        \<and> find (\<lambda>x. url x = url r \<and> ws0 x = ws0 r) ?all = Some r"
  proof
    fix r assume "r \<in> set (pagedResults (web_merge level page additional providerResults))"
    then have "r \<in> set (js_slice (web_unique ?all) ((page - 1) * int RESULTS_PER_PAGE)
                      ((page - 1) * int RESULTS_PER_PAGE + int RESULTS_PER_PAGE))"
      by (simp add: web_merge_def web_page_def Let_def)
    then have r: "r \<in> set (web_unique ?all)"
      by (rule subsetD [OF set_js_slice])
    show "truthy (url r) \<and> r \<in> set ?all
        \<and> (\<forall>x \<in> set ?all. url x = url r \<longrightarrow> ws0 x \<le> ws0 r)
        \<and> find (\<lambda>x. url x = url r \<and> ws0 x = ws0 r) ?all = Some r"
      using web_unique_member [OF r] web_unique_first [OF r] by simp
  qed
  show "\<forall>x \<in> set ?all. truthy (url x) \<longrightarrow> (\<exists>r \<in> set (web_unique ?all). url r = url x)"
    using web_unique_covers by blast
  show "reachable s \<longrightarrow>
        (\<forall>items. fst (webSearch query page safe primary additional now later s) = Inr items
           \<longrightarrow> distinct (map url items))
        \<and> (\<forall>items. fst (newsSearch query safe extractDomain rnd primary now later s) = Inr items
           \<longrightarrow> distinct (map url items))
        \<and> (\<forall>items. fst (videoSearch query safe rnd primary extra now later s) = Inr items
           \<longrightarrow> distinct (map url items))
        \<and> (\<forall>items. fst (imageSearch query safe rnd primary extra now later s) = Inr items
           \<longrightarrow> distinct (map image_src items))"
  proof (intro impI conjI allI)
    fix items
    assume "reachable s"
    then have p: "payloads payload_ok s" by (rule reachable_payloads)
    {
      assume "fst (webSearch query page safe primary additional now later s) = Inr items"
      then have "payload_ok (web_key query page (getSafeSearchParam safe)) items"
        using webSearch_payloads [OF p] by blast
      then show "distinct (map url items)" using payload_ok_webD by blast
    next
      assume "fst (newsSearch query safe extractDomain rnd primary now later s) = Inr items"
      then have "payload_ok (''news:'' @ query @ '':'' @ getSafeSearchParam safe) items"
        using newsSearch_payloads [OF p] by blast
      then show "distinct (map url items)" by (rule payload_ok_news_distinct)
    next
      assume "fst (videoSearch query safe rnd primary extra now later s) = Inr items"
      then have "payload_ok (''vid:'' @ query @ '':'' @ getSafeSearchParam safe) items"
        using videoSearch_payloads [OF p] by blast
      then show "distinct (map url items)" by (rule payload_ok_vid_distinct)
    next
      assume "fst (imageSearch query safe rnd primary extra now later s) = Inr items"
      then have "payload_ok (''img:'' @ query @ '':'' @ getSafeSearchParam safe) items"
        using imageSearch_payloads [OF p] by blast
      then show "distinct (map image_src items)" by (rule payload_ok_img_distinct)
    }
  qed
qed

text \<open>
  In \<open>web_three\<close> DuckDuckGo and SearXNG return \<open>http://x\<close>, with the scores 3 and 4: the page
  holds the result of SearXNG.  In \<open>web_tie_results\<close> DuckDuckGo and Brave return \<open>http://t\<close>,
  both with the score 3: the page holds the result of DuckDuckGo, which came first.  The
  searches for news, videos and images return one result for each url or image.
\<close>

theorem web_dedup_keeps_highest_witness:
  "pagedResults (web_merge ''moderate'' 1 no_pages web_three_results) = web_three_page
   \<and> map url web_three_page = [Some ''http://x'', Some ''http://y'', Some ''http://z'']
   \<and> map ws0 (web_allResults ''moderate'' no_pages web_three_results) = [3, 3, 4, 1]
   \<and> map url (web_allResults ''moderate'' no_pages web_three_results)
       = [Some ''http://x'', Some ''http://y'', Some ''http://x'', Some ''http://z'']
   \<and> map ws0 web_three_page = [4, 3, 1]
   \<and> web_allResults ''moderate'' no_pages web_tie_results = [tie_first, tie_second]
   \<and> url tie_first = url tie_second \<and> ws0 tie_first = ws0 tie_second
   \<and> tie_first \<noteq> tie_second
   \<and> pagedResults (web_merge ''moderate'' 1 no_pages web_tie_results) = [tie_first]
   \<and> find (\<lambda>x. url x = url tie_first \<and> ws0 x = ws0 tie_first) [tie_first, tie_second]
       = Some tie_first
   \<and> fst (webSearch ''q'' 1 None web_three no_pages 0 1 empty_cache) = Inr web_three_page
   \<and> fst (newsSearch ''q'' None same_domain rnd_low_high news_two 0 1 empty_cache)
       = Inr [news_kept]
   \<and> fst (videoSearch ''q'' None rnd_half video_two no_more 0 1 empty_cache) = Inr [video_kept]
   \<and> fst (imageSearch ''q'' None rnd_half image_two no_more 0 1 empty_cache)
       = Inr [image_a, image_b]
   \<and> map image_src [image_a, image_b] = [Some ''i1'', Some ''i2'']"
proof -
  have all: "web_allResults ''moderate'' no_pages web_three_results
             = fst (web_collect ''moderate'' web_three_results ([], []))"
    by (simp add: web_allResults_def web_three_collected web_backfill_def RESULTS_PER_PAGE_def
          bestProviders_def searchMethods_def no_pages_def settle_additional_def)
  have p: "pagedResults (web_merge ''moderate'' 1 no_pages web_three_results) = web_three_page"
    by (simp add: web_merge_def all web_three_collected web_unique_def Map_values_def truthy_def
          web_item_def ws0_def num_or_def web_page_def js_slice_def RESULTS_PER_PAGE_def
          web_three_page_def)
  have w: "fst (webSearch ''q'' 1 None web_three no_pages 0 1 empty_cache) = Inr web_three_page"
    by (simp add: webSearch_miss_eval web_three_eval)
  have three: "map url web_three_page = [Some ''http://x'', Some ''http://y'', Some ''http://z'']
     \<and> map ws0 (web_allResults ''moderate'' no_pages web_three_results) = [3, 3, 4, 1]
     \<and> map url (web_allResults ''moderate'' no_pages web_three_results)
         = [Some ''http://x'', Some ''http://y'', Some ''http://x'', Some ''http://z'']
     \<and> map ws0 web_three_page = [4, 3, 1]"
    by (simp add: all web_three_collected web_three_page_def ws0_def num_or_def web_item_def)
  have tall: "web_allResults ''moderate'' no_pages web_tie_results = [tie_first, tie_second]"
    by (simp add: web_allResults_def web_tie_results_def web_backfill_def RESULTS_PER_PAGE_def
          bestProviders_def searchMethods_def no_pages_def settle_additional_def truthy_def
          enrich_def num_or_def web_item_def tie_first_def tie_second_def)
  have tq: "url tie_first = url tie_second \<and> ws0 tie_first = ws0 tie_second
            \<and> tie_first \<noteq> tie_second"
    by (simp add: tie_first_def tie_second_def web_item_def ws0_def num_or_def)
  have tp: "pagedResults (web_merge ''moderate'' 1 no_pages web_tie_results) = [tie_first]"
    by (simp add: web_merge_def tall web_unique_def Map_values_def truthy_def
          web_item_def ws0_def num_or_def web_page_def js_slice_def RESULTS_PER_PAGE_def
          tie_first_def tie_second_def)
  note tie = web_dedup_keeps_highest [of "''moderate''" 1 no_pages web_tie_results empty_cache
            "''q''" None web_three 0 1 same_domain rnd_low_high no_more]
  have "\<forall>r \<in> set [tie_first].
          truthy (url r) \<and> r \<in> set [tie_first, tie_second]
          \<and> (\<forall>x \<in> set [tie_first, tie_second]. url x = url r \<longrightarrow> ws0 x \<le> ws0 r)
          \<and> find (\<lambda>x. url x = url r \<and> ws0 x = ws0 r) [tie_first, tie_second] = Some r"
    using tie [THEN conjunct2, THEN conjunct1] unfolding tp tall .
  then have tf: "find (\<lambda>x. url x = url tie_first \<and> ws0 x = ws0 tie_first)
                   [tie_first, tie_second] = Some tie_first"
    by simp
  have n: "fst (newsSearch ''q'' None same_domain rnd_low_high news_two 0 1 empty_cache)
           = Inr [news_kept]"
    by (simp add: newsSearch_def with_cache_def cacheGet_def cacheSet_def empty_cache_def
          news_aggregate_def settle_all_def newsProviders_def settle_def news_two_def
          or_empty_def news_merge_def truthy_def rank_def rank_score_def num_or_def js_slice_def
          getSafeSearchParam_def rnd_low_high_def web_item_def news_kept_def)
  have v: "fst (videoSearch ''q'' None rnd_half video_two no_more 0 1 empty_cache)
           = Inr [video_kept]"
    by (simp add: videoSearch_def with_cache_def cacheGet_def cacheSet_def empty_cache_def
          video_aggregate_def settle_all_def videoProviders_def settle_def video_two_def
          or_empty_def video_merge_def more_items_def no_more_def truthy_def video_id_def
          rank_def rank_score_def num_or_def js_slice_def rnd_half_def web_item_def
          video_kept_def)
  have i: "fst (imageSearch ''q'' None rnd_half image_two no_more 0 1 empty_cache)
           = Inr [image_a, image_b]"
    by (simp add: imageSearch_def with_cache_def cacheGet_def cacheSet_def empty_cache_def
          image_aggregate_def settle_all_def imageProviders_def settle_def image_two_def
          or_empty_def image_merge_def more_items_def no_more_def truthy_def
          rank_def rank_score_def num_or_def js_slice_def rnd_half_def image_item_def
          image_a_def image_b_def)
  have im: "map image_src [image_a, image_b] = [Some ''i1'', Some ''i2'']"
    by (simp add: image_a_def image_b_def image_item_def)
  have r0: "reachable empty_cache" by (rule reachable.start)
  note srch = web_dedup_keeps_highest [of "''moderate''" 1 no_pages web_three_results empty_cache
            "''q''" None web_three 0 1 same_domain rnd_low_high no_more,
            THEN conjunct2, THEN conjunct2, THEN conjunct2, rule_format, OF r0]
  have dw: "distinct (map url web_three_page)"
    using srch [THEN conjunct1, rule_format, OF w] .
  note srch_news = web_dedup_keeps_highest [where s = empty_cache and query = "''q''"
            and safe = None and primary = news_two and now = 0 and later = 1
            and extractDomain = same_domain and rnd = rnd_low_high,
            THEN conjunct2, THEN conjunct2, THEN conjunct2, rule_format, OF r0]
  have dn: "distinct (map url [news_kept])"
    using srch_news [THEN conjunct2, THEN conjunct1, rule_format, OF n] .
  note srch_video = web_dedup_keeps_highest [where s = empty_cache and query = "''q''"
            and safe = None and primary = video_two and now = 0 and later = 1
            and rnd = rnd_half and extra = no_more,
            THEN conjunct2, THEN conjunct2, THEN conjunct2, rule_format, OF r0]
  have dv: "distinct (map url [video_kept])"
    using srch_video [THEN conjunct2, THEN conjunct2, THEN conjunct1, rule_format, OF v] .
  note srch_image = web_dedup_keeps_highest [where s = empty_cache and query = "''q''"
            and safe = None and primary = image_two and now = 0 and later = 1
            and rnd = rnd_half and extra = no_more,
            THEN conjunct2, THEN conjunct2, THEN conjunct2, rule_format, OF r0]
  have di: "distinct (map image_src [image_a, image_b])"
    using srch_image [THEN conjunct2, THEN conjunct2, THEN conjunct2, rule_format, OF i] .
  show ?thesis
    using p three tall tq tp tf w n v i im dw dn dv di by (intro conjI) simp_all
qed

text \<open>
  C1 as stated fails for \<^verbatim>\<open>newsSearch\<close> and \<^verbatim>\<open>videoSearch\<close>, which keep the first result
  they meet with a url.  Of two news results with the same url from providers of equal
  weight, the one of the provider registered first is returned although the score that
  ranks the other is higher; of two video results with the same url, the one of PeerTube
  (weight 1) is returned and the one of Dailymotion (weight 2) discarded.
\<close>

theorem first_occurrence_kept_counterexample:
  "fst (collect_weighted rnd_low_high news_same_url ([], 0)) = [news_kept, news_dropped]
   \<and> url news_kept = url news_dropped
   \<and> rank_score news_kept < rank_score news_dropped
   \<and> news_merge ''moderate'' same_domain rnd_low_high news_same_url = Inr [news_kept]
   \<and> fst (collect_weighted rnd_half video_same_url ([], 0)) = [video_kept, video_dropped]
   \<and> url video_kept = url video_dropped
   \<and> weight video_kept = Some 1 \<and> weight video_dropped = Some 2
   \<and> rank_score video_kept < rank_score video_dropped
   \<and> video_merge rnd_half no_more video_same_url = Inr [video_kept]"
proof -
  have n: "fst (collect_weighted rnd_low_high news_same_url ([], 0)) = [news_kept, news_dropped]
   \<and> url news_kept = url news_dropped
   \<and> rank_score news_kept < rank_score news_dropped
   \<and> news_merge ''moderate'' same_domain rnd_low_high news_same_url = Inr [news_kept]"
    by (simp add: news_merge_def news_same_url_def rnd_low_high_def truthy_def web_item_def
          news_kept_def news_dropped_def rank_def rank_score_def num_or_def js_slice_def)
  have v: "fst (collect_weighted rnd_half video_same_url ([], 0)) = [video_kept, video_dropped]
   \<and> url video_kept = url video_dropped
   \<and> weight video_kept = Some 1 \<and> weight video_dropped = Some 2
   \<and> rank_score video_kept < rank_score video_dropped
   \<and> video_merge rnd_half no_more video_same_url = Inr [video_kept]"
    by (simp add: video_merge_def more_items_def video_same_url_def rnd_half_def truthy_def
          web_item_def video_kept_def video_dropped_def no_more_def or_empty_def video_id_def
          rank_def rank_score_def num_or_def js_slice_def)
  show ?thesis using n v by simp
qed

section \<open>Order of the merged results\<close>

lemma jitter_cong:
  "(\<forall>j. i \<le> j \<and> j < i + length xs \<longrightarrow> rnd1 j = rnd2 j) \<Longrightarrow> jitter rnd1 i p xs = jitter rnd2 i p xs"
proof (induction xs arbitrary: i)
  case Nil
  then show ?case by simp
next
  case (Cons x xs)
  have "rnd1 i = rnd2 i" using Cons.prems by simp
  moreover have "jitter rnd1 (Suc i) p xs = jitter rnd2 (Suc i) p xs"
    by (rule Cons.IH) (use Cons.prems in simp)
  ultimately show ?case by simp
qed

lemma collect_weighted_cong:
  "(\<forall>j. i \<le> j \<and> j < i + draws ps \<longrightarrow> rnd1 j = rnd2 j) \<Longrightarrow>
   collect_weighted rnd1 ps (allItems, i) = collect_weighted rnd2 ps (allItems, i)"
proof (induction ps arbitrary: allItems i)
  case Nil
  then show ?case by simp
next
  case (Cons p ps)
  show ?case
  proof (cases "truthy (pr_error p)")
    case True
    have "collect_weighted rnd1 ps (allItems, i) = collect_weighted rnd2 ps (allItems, i)"
      by (rule Cons.IH) (use Cons.prems True in \<open>simp add: draws_def\<close>)
    then show ?thesis using True by simp
  next
    case False
    let ?n = "length (pr_results p)"
    have j: "jitter rnd1 i p (pr_results p) = jitter rnd2 i p (pr_results p)"
      by (rule jitter_cong) (use Cons.prems False in \<open>simp add: draws_def\<close>)
    have "collect_weighted rnd1 ps (a, i + ?n) = collect_weighted rnd2 ps (a, i + ?n)" for a
      by (rule Cons.IH) (use Cons.prems False in \<open>simp add: draws_def\<close>)
    moreover have "collect_weighted rnd1 ps (allItems, i) = collect_weighted rnd2 ps (allItems, i)"
      by (rule Cons.IH) (use Cons.prems False in \<open>simp add: draws_def\<close>)
    ultimately show ?thesis using False j by simp
  qed
qed

lemma sorted_web_unique: "sorted (map (\<lambda>r. - ws0 r) (web_unique xs))"
  by (simp add: web_unique_def)

lemma stable_web_unique:
  "filter (\<lambda>r. ws0 r = w) (web_unique xs) = filter (\<lambda>r. ws0 r = w) (Map_values (web_seen xs []))"
proof -
  have "filter (\<lambda>r. - ws0 r = - w) (sort_key (\<lambda>r. - ws0 r) (Map_values (web_seen xs [])))
        = filter (\<lambda>r. - ws0 r = - w) (Map_values (web_seen xs []))"
    by (rule sort_key_stable)
  then show ?thesis by (simp add: web_unique_def)
qed

text \<open>
  C8, as the code has it.  The merges of \<^verbatim>\<open>imageSearch\<close>, \<^verbatim>\<open>videoSearch\<close> and \<^verbatim>\<open>newsSearch\<close>
  are functions of the provider results and of the values that \<^verbatim>\<open>Math.random()\<close> returns:
  two runs on the same provider results give the same list when their random values agree
  on the calls that the weighting makes.  The merge of \<^verbatim>\<open>webSearch\<close> calls no random
  source: its list is sorted by \<open>weightScore || 0\<close>, descending, and results of equal score
  stay in the order in which their urls were first met.
\<close>

theorem merge_order_given_random:
  "\<forall>i < draws providerResults. rnd1 i = rnd2 i \<Longrightarrow>
     image_merge rnd1 extra providerResults = image_merge rnd2 extra providerResults
   \<and> video_merge rnd1 extra providerResults = video_merge rnd2 extra providerResults
   \<and> news_merge level extractDomain rnd1 providerResults
       = news_merge level extractDomain rnd2 providerResults
   \<and> sorted (map (\<lambda>r. - ws0 r) (web_unique allResults))
   \<and> filter (\<lambda>r. ws0 r = w) (web_unique allResults)
       = filter (\<lambda>r. ws0 r = w) (Map_values (web_seen allResults []))"
proof -
  assume "\<forall>i < draws providerResults. rnd1 i = rnd2 i"
  then have "\<forall>j. 0 \<le> j \<and> j < 0 + draws providerResults \<longrightarrow> rnd1 j = rnd2 j" by simp
  then have c: "collect_weighted rnd1 providerResults ([], 0)
                = collect_weighted rnd2 providerResults ([], 0)"
    by (rule collect_weighted_cong)
  show ?thesis
    by (simp add: image_merge_def video_merge_def news_merge_def c sorted_web_unique
          stable_web_unique)
qed

text \<open>
  Two runs over \<open>two_images\<close>, whose weighting calls \<^verbatim>\<open>Math.random()\<close> twice: the random values
  agree on these two calls and differ afterwards, and the lists are the same.
\<close>

theorem merge_order_given_random_witness:
  "draws two_images = 2
   \<and> rnd_high_low 0 = rnd_high_low_high 0 \<and> rnd_high_low 1 = rnd_high_low_high 1
   \<and> rnd_high_low 2 \<noteq> rnd_high_low_high 2
   \<and> image_merge rnd_high_low no_more two_images = image_merge rnd_high_low_high no_more two_images
   \<and> map_sum (\<lambda>e. e) (map image_src) (image_merge rnd_high_low no_more two_images)
       = Inr [Some ''i1'', Some ''i2'']"
proof -
  have d: "draws two_images = 2" by (simp add: draws_def two_images_def truthy_def)
  have a: "\<forall>i < draws two_images. rnd_high_low i = rnd_high_low_high i"
    by (simp add: d rnd_high_low_def rnd_high_low_high_def)
  have r: "rnd_high_low 0 = rnd_high_low_high 0" "rnd_high_low 1 = rnd_high_low_high 1"
    "rnd_high_low 2 \<noteq> rnd_high_low_high 2"
    by (simp_all add: rnd_high_low_def rnd_high_low_high_def)
  have e: "map_sum (\<lambda>e. e) (map image_src) (image_merge rnd_high_low no_more two_images)
       = Inr [Some ''i1'', Some ''i2'']"
    by (simp add: image_merge_def more_items_def two_images_def rnd_high_low_def truthy_def
          image_item_def no_more_def or_empty_def rank_def rank_score_def num_or_def
          js_slice_def)
  show ?thesis
    using merge_order_given_random [OF a, of no_more] d r e by simp
qed

text \<open>
  C8 as stated fails for \<^verbatim>\<open>imageSearch\<close>: on the same provider results, two sequences of
  random values give the two images in opposite orders.
\<close>

theorem image_order_depends_on_random_counterexample:
  "map_sum (\<lambda>e. e) (map image_src) (image_merge rnd_low_high no_more two_images)
     = Inr [Some ''i2'', Some ''i1'']
   \<and> map_sum (\<lambda>e. e) (map image_src) (image_merge rnd_high_low no_more two_images)
     = Inr [Some ''i1'', Some ''i2'']"
  by (simp add: image_merge_def more_items_def two_images_def rnd_low_high_def rnd_high_low_def
        truthy_def image_item_def no_more_def or_empty_def rank_def rank_score_def num_or_def
        js_slice_def)

end
